theory Spec2Isabelle
  imports Main "HOL-Library.Finite_Map"
begin

section \<open>Access control (core/auth/auth.go)\<close>

text \<open>
  A principal is an identity with an ordered sequence of role names. A role is a named
  list of permissions; an RBAC provider is the lookup \<open>GetRole\<close> from role names to roles.
  Permissions are plain strings. Strings are byte sequences, as Go strings are.
\<close>

record Principal =
  ID :: string
  Type :: string
  Roles :: "string list"

record Role =
  Role_Name :: string
  Permissions :: "string list"

type_synonym RBACProvider = "string \<Rightarrow> Role option"

text \<open>
  The character class of \<open>permissionSanitizer\<close>, the regular expression
  \<^verbatim>\<open>[^a-zA-Z0-9.-]+\<close>: a byte is allowed when it is an ASCII letter, a digit, a dot
  or a hyphen. Every byte of a multi-byte UTF-8 sequence is at least 128 and so is
  outside the class, as the rune it encodes is.
\<close>

definition allowedChar :: "char \<Rightarrow> bool" where
  "allowedChar c =
     (let n = (of_char c :: nat)
      in (97 \<le> n \<and> n \<le> 122) \<or> (65 \<le> n \<and> n \<le> 90) \<or> (48 \<le> n \<and> n \<le> 57)
         \<or> n = 46 \<or> n = 45)"

text \<open>
  \<open>sanitizePermissionComponent\<close> is \<open>permissionSanitizer.ReplaceAllString(component, "_")\<close>:
  the pattern ends in \<open>+\<close>, so every maximal run of disallowed bytes is one match and is
  replaced by a single underscore.
\<close>

function sanitizePermissionComponent :: "string \<Rightarrow> string" where
  "sanitizePermissionComponent [] = []"
| "sanitizePermissionComponent (c # cs) =
     (if allowedChar c then c # sanitizePermissionComponent cs
      else CHR ''_'' # sanitizePermissionComponent (dropWhile (\<lambda>x. \<not> allowedChar x) cs))"
  by pat_completeness auto
termination
  by (relation "measure length") (auto simp: length_dropWhile_le less_Suc_eq_le)

text \<open>
  The wildcard test that \<open>HasPermission\<close> writes out twice, once for role names and once
  for the permissions of a resolved role: the grant \<open>g\<close> is longer than two bytes and ends
  in \<open>.*\<close>; the prefix is \<open>g\<close> without its last two bytes; the permission is strictly
  longer than the prefix and starts with it.
\<close>

definition wildcardGrants :: "string \<Rightarrow> string \<Rightarrow> bool" where
  "wildcardGrants g perm =
     (length g > 2 \<and> drop (length g - 2) g = ''.*'' \<and>
      (let prefix = take (length g - 2) g
       in length perm > length prefix \<and> take (length prefix) perm = prefix))"

text \<open>The first loop of \<open>HasPermission\<close>, over the role names of the principal.\<close>

fun roleNamesGrant :: "string list \<Rightarrow> string \<Rightarrow> bool" where
  "roleNamesGrant [] perm = False"
| "roleNamesGrant (roleName # rest) perm =
     (if roleName = perm then True
      else if wildcardGrants roleName perm then True
      else roleNamesGrant rest perm)"

text \<open>The inner loop over \<open>role.Permissions\<close>.\<close>

fun rolePermsGrant :: "string list \<Rightarrow> string \<Rightarrow> bool" where
  "rolePermsGrant [] perm = False"
| "rolePermsGrant (rolePerm # rest) perm =
     (if rolePerm = perm then True
      else if wildcardGrants rolePerm perm then True
      else rolePermsGrant rest perm)"

text \<open>The second loop, resolving each role name through the provider.\<close>

fun providerGrants :: "RBACProvider \<Rightarrow> string list \<Rightarrow> string \<Rightarrow> bool" where
  "providerGrants prov [] perm = False"
| "providerGrants prov (roleName # rest) perm =
     (case prov roleName of
        Some role \<Rightarrow>
          (if rolePermsGrant (Permissions role) perm then True
           else providerGrants prov rest perm)
      | None \<Rightarrow> providerGrants prov rest perm)"

text \<open>
  \<open>DefaultAccessController.HasPermission\<close>. The controller holds its provider in the
  field \<open>rbacProvider\<close>, which the method compares with nil.
\<close>

definition HasPermission :: "RBACProvider option \<Rightarrow> Principal \<Rightarrow> string \<Rightarrow> bool" where
  "HasPermission rbacProvider p perm =
     (if roleNamesGrant (Roles p) perm then True
      else case rbacProvider of
             None \<Rightarrow> False
           | Some prov \<Rightarrow> providerGrants prov (Roles p) perm)"

text \<open>
  The two implementations of the \<open>AccessController\<close> interface in the package:
  \<open>allowAllAccessController\<close>, which \<open>NewDefaultAccessController\<close> returns for a nil
  provider, and \<open>DefaultAccessController\<close>.
\<close>

datatype AccessController =
    AllowAllAccessController
  | DefaultAccessController "RBACProvider option"

definition NewDefaultAccessController :: "RBACProvider option \<Rightarrow> AccessController" where
  "NewDefaultAccessController provider =
     (case provider of None \<Rightarrow> AllowAllAccessController
      | Some prov \<Rightarrow> DefaultAccessController (Some prov))"

fun hasPermission :: "AccessController \<Rightarrow> Principal \<Rightarrow> string \<Rightarrow> bool" where
  "hasPermission AllowAllAccessController p perm = True"
| "hasPermission (DefaultAccessController d) p perm = HasPermission d p perm"

fun CanPublishEvent :: "AccessController \<Rightarrow> Principal \<Rightarrow> string \<Rightarrow> bool" where
  "CanPublishEvent AllowAllAccessController p eventType = True"
| "CanPublishEvent (DefaultAccessController d) p eventType =
     HasPermission d p (''core.events.publish.'' @ sanitizePermissionComponent eventType)"

fun CanSubscribeEvent :: "AccessController \<Rightarrow> Principal \<Rightarrow> string \<Rightarrow> bool" where
  "CanSubscribeEvent AllowAllAccessController p eventType = True"
| "CanSubscribeEvent (DefaultAccessController d) p eventType =
     HasPermission d p (''core.events.subscribe.'' @ sanitizePermissionComponent eventType)"

fun CanAccessConfig :: "AccessController \<Rightarrow> Principal \<Rightarrow> string \<Rightarrow> bool" where
  "CanAccessConfig AllowAllAccessController p configKey = True"
| "CanAccessConfig (DefaultAccessController d) p configKey =
     HasPermission d p (''core.config.access.'' @ sanitizePermissionComponent configKey)"

fun CanReloadModule :: "AccessController \<Rightarrow> Principal \<Rightarrow> string \<Rightarrow> bool" where
  "CanReloadModule AllowAllAccessController p moduleToReload = True"
| "CanReloadModule (DefaultAccessController d) p moduleToReload =
     HasPermission d p (''core.module.reload.'' @ sanitizePermissionComponent moduleToReload)"

text \<open>
  The specification's reading of sanitization: every single byte outside the class
  becomes an underscore (no merging of runs).
\<close>

definition replaceEachDisallowed :: "string \<Rightarrow> string" where
  "replaceEachDisallowed s = map (\<lambda>c. if allowedChar c then c else CHR ''_'') s"

section \<open>Contexts and errors\<close>

text \<open>
  A request context, as far as the modelled code reads it: the principal stored under
  \<open>principalContextKey\<close> (if any) and whether the context's \<open>Done\<close> channel is closed.
\<close>

record Context =
  ctxPrincipal :: "Principal option"
  ctxDone :: bool

definition Background :: Context where
  "Background = \<lparr>ctxPrincipal = None, ctxDone = False\<rparr>"

definition PrincipalFromContext :: "Context \<Rightarrow> Principal option" where
  "PrincipalFromContext ctx = ctxPrincipal ctx"

definition ContextWithPrincipal :: "Context \<Rightarrow> Principal \<Rightarrow> Context" where
  "ContextWithPrincipal ctx p = ctx\<lparr>ctxPrincipal := Some p\<rparr>"

text \<open>
  The error values built by the registry and the kernel. \<open>Wrap prefix e\<close> is
  \<open>fmt.Errorf(prefix + ": %w", e)\<close>, and \<open>WrapBoth\<close> wraps two errors, as
  \<open>fmt.Errorf(p1 + ": %w; " + p2 + ": %w", e1, e2)\<close> does. \<open>ErrText\<close> is an error returned by a component,
  \<open>PanicError\<close> the error \<open>safelyExecute\<close> makes of a recovered panic (component type,
  component name, operation, panic value). Two further values are not Go errors but the
  ways in which a call fails to return: \<open>GoPanic\<close> is a panic that nothing recovers
  (it reaches the caller), and \<open>Blocked\<close> is a call that waits forever on a lock.
\<close>

datatype error =
    ErrText string
  | PanicError string string string string
  | GoPanic string
  | Blocked
  | Wrap string error
  | WrapBoth string error string error
  | ServiceAlreadyRegistered string
  | GatewayAlreadyRegistered string
  | ServiceNotFound string
  | GatewayNotFound string
  | NoPrincipalInContext string
  | NotAuthorized string string string string
  | ModuleIsNil
  | ModuleNameEmpty
  | GatewayIsNil
  | GatewayNameEmpty
  | SecurityViolation string string
  | AccessDenied string string string
  | errDuplicate
  | errNotFound
  | errAlreadyRunning
  | errNotRunning
  | errVersion
  | InvalidVersion string string
  | MissingDependency string string
  | InvalidConstraint string string
  | DependencyInvalidVersion string string
  | VersionMismatch string string string string error
  | CircularDependency

section \<open>Service registry (package registry)\<close>

text \<open>
  \<open>DefaultRegistry\<close> holds two Go maps from names to \<open>serviceEntry\<close>; they are
  association lists here, because \<open>UnregisterServicesByModule\<close> ranges over them. The
  service value is an opaque \<open>interface{}\<close> (type \<open>'a\<close>); so is a gateway handle (type
  \<open>'g\<close>). The access controller is held through its interface, of which the registry
  calls \<open>HasPermission\<close> only.
\<close>

record 'a serviceEntry =
  service :: 'a
  moduleName :: string

record ('a, 'g) DefaultRegistry =
  services :: "(string \<times> 'a serviceEntry) list"
  gateways :: "(string \<times> 'g serviceEntry) list"
  accessController :: "Principal \<Rightarrow> string \<Rightarrow> bool"

definition NewDefaultRegistry ::
  "(Principal \<Rightarrow> string \<Rightarrow> bool) option \<Rightarrow> ('a, 'g) DefaultRegistry" where
  "NewDefaultRegistry ac =
     \<lparr>services = [], gateways = [],
      accessController = (case ac of None \<Rightarrow> hasPermission (NewDefaultAccessController None)
                          | Some f \<Rightarrow> f)\<rparr>"

definition RegisterService ::
  "('a, 'g) DefaultRegistry \<Rightarrow> string \<Rightarrow> 'a \<Rightarrow> string
     \<Rightarrow> error option \<times> ('a, 'g) DefaultRegistry" where
  "RegisterService r name svc modName =
     (case map_of (services r) name of
        Some e \<Rightarrow> (Some (ServiceAlreadyRegistered name), r)
      | None \<Rightarrow>
          (None, r\<lparr>services := services r @ [(name, \<lparr>service = svc, moduleName = modName\<rparr>)]\<rparr>))"



definition UnregisterService :: "('a, 'g) DefaultRegistry \<Rightarrow> string \<Rightarrow> ('a, 'g) DefaultRegistry" where
  "UnregisterService r name = r\<lparr>services := filter (\<lambda>(n, e). n \<noteq> name) (services r)\<rparr>"

text \<open>
  \<open>GetService\<close> reads the entry, then the principal of the context, then asks the access
  controller for \<open>service.<moduleName>.<name>.access\<close>. It writes nothing; the registry is
  returned as it was received.
\<close>

definition servicePermission :: "string \<Rightarrow> string \<Rightarrow> string" where
  "servicePermission modName name = ''service.'' @ modName @ ''.'' @ name @ ''.access''"

definition GetService ::
  "('a, 'g) DefaultRegistry \<Rightarrow> Context \<Rightarrow> string
     \<Rightarrow> (error + 'a) \<times> ('a, 'g) DefaultRegistry" where
  "GetService r ctx name =
     (case map_of (services r) name of
        None \<Rightarrow> (Inl (ServiceNotFound name), r)
      | Some entry \<Rightarrow>
          (case PrincipalFromContext ctx of
             None \<Rightarrow> (Inl (NoPrincipalInContext name), r)
           | Some p \<Rightarrow>
               (let permission = servicePermission (moduleName entry) name
                in if \<not> accessController r p permission
                   then (Inl (NotAuthorized (ID p) (Type p) name permission), r)
                   else (Inr (service entry), r))))"

definition GetGateway ::
  "('a, 'g) DefaultRegistry \<Rightarrow> Context \<Rightarrow> string
     \<Rightarrow> (error + 'g) \<times> ('a, 'g) DefaultRegistry" where
  "GetGateway r ctx name =
     (case map_of (gateways r) name of
        None \<Rightarrow> (Inl (GatewayNotFound name), r)
      | Some entry \<Rightarrow>
          (case PrincipalFromContext ctx of
             None \<Rightarrow> (Inl (NoPrincipalInContext name), r)
           | Some p \<Rightarrow>
               (let permission = ''gateway.'' @ name @ ''.access''
                in if \<not> accessController r p permission
                   then (Inl (NotAuthorized (ID p) (Type p) name permission), r)
                   else (Inr (service entry), r))))"

text \<open>
  \<open>UnregisterServicesByModule\<close> takes the write lock, deletes every service of the
  module, and then ranges over the gateways: for a gateway entry of that module name it
  calls \<open>UnregisterGateway\<close>, which takes the same (non-reentrant) lock again and so
  never returns. \<open>None\<close> is that outcome.
\<close>

definition UnregisterServicesByModule ::
  "('a, 'g) DefaultRegistry \<Rightarrow> string \<Rightarrow> ('a, 'g) DefaultRegistry option" where
  "UnregisterServicesByModule r modName =
     (let r' = r\<lparr>services := filter (\<lambda>(n, e). moduleName e \<noteq> modName) (services r)\<rparr>
      in if list_ex (\<lambda>(n, e). moduleName e = modName) (gateways r) then None else Some r')"

section \<open>Event bus (core/events/bus.go)\<close>

text \<open>
  A subscription sink is a Go channel of capacity 16. The channels made by \<open>Subscribe\<close>
  live in a store (the list \<open>chans\<close>); a channel is referred to by its index there, so
  the sinks handed out so far are exactly the indices below \<open>length (chans b)\<close>. The
  field \<open>topics\<close> is the Go map from topic to its set of channels, kept as an association
  list whose order is the order in which \<open>Close\<close> and \<open>Publish\<close> range over it.
\<close>

record 'e chan =
  buf :: "'e list"
  chanClosed :: bool

record 'e bus =
  chans :: "'e chan list"
  topics :: "(string \<times> nat list) list"
  closed :: bool

definition New :: "'e bus" where
  "New = \<lparr>chans = [], topics = [], closed = False\<rparr>"

text \<open>The cancel function returned by \<open>Subscribe\<close>: the empty function, or the closure
  over the topic and the channel.\<close>

datatype cancelFn = NoopCancel | CancelSub string nat

text \<open>\<open>close(ch)\<close>: closing a closed channel panics (\<open>None\<close>).\<close>

definition closeChan :: "nat \<Rightarrow> 'e chan list \<Rightarrow> 'e chan list option" where
  "closeChan ch cs =
     (if ch < length cs \<and> \<not> chanClosed (cs ! ch)
      then Some (cs[ch := (cs ! ch)\<lparr>chanClosed := True\<rparr>])
      else None)"

fun closeAll :: "nat list \<Rightarrow> 'e chan list \<Rightarrow> 'e chan list option" where
  "closeAll [] cs = Some cs"
| "closeAll (ch # rest) cs =
     (case closeChan ch cs of None \<Rightarrow> None | Some cs' \<Rightarrow> closeAll rest cs')"

definition Subscribe :: "'e bus \<Rightarrow> string \<Rightarrow> (nat \<times> cancelFn \<times> error option) \<times> 'e bus" where
  "Subscribe b topic =
     (let ch = length (chans b)
      in if closed b
         then ((ch, NoopCancel, None),
               b\<lparr>chans := chans b @ [\<lparr>buf = [], chanClosed = True\<rparr>]\<rparr>)
         else ((ch, CancelSub topic ch, None),
               b\<lparr>chans := chans b @ [\<lparr>buf = [], chanClosed = False\<rparr>],
                 topics := (case map_of (topics b) topic of
                              None \<Rightarrow> topics b @ [(topic, [ch])]
                            | Some subs \<Rightarrow> AList.update topic (subs @ [ch]) (topics b))\<rparr>))"

text \<open>Running a cancel function. \<open>None\<close> is a panic (closing a closed channel).\<close>

fun cancel :: "cancelFn \<Rightarrow> 'e bus \<Rightarrow> 'e bus option" where
  "cancel NoopCancel b = Some b"
| "cancel (CancelSub topic ch) b =
     (case map_of (topics b) topic of
        None \<Rightarrow> Some b
      | Some subs \<Rightarrow>
          (if ch \<in> set subs
           then (case closeChan ch (chans b) of
                   None \<Rightarrow> None
                 | Some cs \<Rightarrow>
                     (let subs' = removeAll ch subs
                      in Some (b\<lparr>chans := cs,
                                 topics := (if length subs' = 0 then AList.delete topic (topics b)
                                            else AList.update topic subs' (topics b))\<rparr>)))
           else Some b))"

text \<open>
  The delivery loop of \<open>Publish\<close>, over the snapshot of the topic's channels. In the
  \<open>select\<close>, the send is ready when the buffer has room (or the channel is closed, in
  which case sending panics), and the \<open>ctx.Done()\<close> case is ready when the context is
  done; when both are ready Go picks one at random, which \<open>pick\<close> decides here
  (\<open>pick ch\<close> for the send); when none is ready the \<open>default\<close> case drops the event.
\<close>

fun deliver :: "bool \<Rightarrow> (nat \<Rightarrow> bool) \<Rightarrow> 'e \<Rightarrow> nat list \<Rightarrow> 'e chan list \<Rightarrow> 'e chan list option" where
  "deliver done pick payload [] cs = Some cs"
| "deliver done pick payload (ch # rest) cs =
     (if ch < length cs
      then (let c = cs ! ch;
                sendReady = (chanClosed c \<or> length (buf c) < 16)
            in if sendReady \<and> (\<not> done \<or> pick ch)
               then (if chanClosed c then None
                     else deliver done pick payload rest (cs[ch := c\<lparr>buf := buf c @ [payload]\<rparr>]))
               else if done then Some cs
               else deliver done pick payload rest cs)
      else None)"

definition Publish :: "Context \<Rightarrow> (nat \<Rightarrow> bool) \<Rightarrow> 'e bus \<Rightarrow> string \<Rightarrow> 'e \<Rightarrow> 'e bus option" where
  "Publish ctx pick b topic payload =
     (let chs = (case map_of (topics b) topic of None \<Rightarrow> [] | Some subs \<Rightarrow> subs)
      in case deliver (ctxDone ctx) pick payload chs (chans b) of
           None \<Rightarrow> None
         | Some cs \<Rightarrow> Some (b\<lparr>chans := cs\<rparr>))"

definition Close :: "'e bus \<Rightarrow> 'e bus option" where
  "Close b =
     (if closed b then Some b
      else case closeAll (concat (map snd (topics b))) (chans b) of
             None \<Rightarrow> None
           | Some cs \<Rightarrow> Some (b\<lparr>chans := cs, topics := [], closed := True\<rparr>))"

text \<open>A subscriber taking the next event from its sink (nothing to take: no change).\<close>

definition receive :: "nat \<Rightarrow> 'e bus \<Rightarrow> 'e bus" where
  "receive ch b =
     (if ch < length (chans b)
      then b\<lparr>chans := (chans b)[ch := (chans b ! ch)\<lparr>buf := tl (buf (chans b ! ch))\<rparr>]\<rparr>
      else b)"

text \<open>
  Histories of a bus: any sequence of subscriptions, runs of cancel functions,
  publications, closes and receptions. \<open>None\<close> means that some step panicked.
\<close>

datatype 'e busOp =
    OpSubscribe string
  | OpCancel cancelFn
  | OpPublish Context "nat \<Rightarrow> bool" string 'e
  | OpClose
  | OpReceive nat

fun busStep :: "'e busOp \<Rightarrow> 'e bus \<Rightarrow> 'e bus option" where
  "busStep (OpSubscribe topic) b = Some (snd (Subscribe b topic))"
| "busStep (OpCancel c) b = cancel c b"
| "busStep (OpPublish ctx pick topic payload) b = Publish ctx pick b topic payload"
| "busStep OpClose b = Close b"
| "busStep (OpReceive ch) b = Some (receive ch b)"

fun busRun :: "'e busOp list \<Rightarrow> 'e bus \<Rightarrow> 'e bus option" where
  "busRun [] b = Some b"
| "busRun (op # ops) b = (case busStep op b of None \<Rightarrow> None | Some b' \<Rightarrow> busRun ops b')"

text \<open>
  The invariant of reachable buses: every subscribed channel exists, is open, and is
  listed once; every open channel is subscribed; \<open>topics\<close> is a well-formed map; a closed
  bus has no topics.
\<close>

definition subsOk :: "(string \<rightharpoonup> nat list) \<Rightarrow> 'e chan list \<Rightarrow> bool" where
  "subsOk m cs \<longleftrightarrow>
     (\<forall>t subs. m t = Some subs \<longrightarrow>
         distinct subs \<and> (\<forall>ch \<in> set subs. ch < length cs \<and> \<not> chanClosed (cs ! ch)))
     \<and> (\<forall>t t' s s'. m t = Some s \<and> m t' = Some s' \<and> t \<noteq> t' \<longrightarrow> set s \<inter> set s' = {})
     \<and> (\<forall>ch < length cs. \<not> chanClosed (cs ! ch) \<longrightarrow> (\<exists>t subs. m t = Some subs \<and> ch \<in> set subs))"

definition busInv :: "'e bus \<Rightarrow> bool" where
  "busInv b \<longleftrightarrow>
     distinct (map fst (topics b)) \<and> subsOk (map_of (topics b)) (chans b)
     \<and> (closed b \<longrightarrow> topics b = [])"

text \<open>A bus after \<open>Close\<close>: closed, without topics, every channel closed.\<close>

definition busDead :: "'e bus \<Rightarrow> bool" where
  "busDead b \<longleftrightarrow> closed b \<and> topics b = [] \<and> list_all chanClosed (chans b)"

section \<open>Kernel: components, configuration and state (package kernel)\<close>

text \<open>
  The events the kernel declares, and events of other (component-defined) types with
  an opaque payload.
\<close>

datatype 'a TypedEvent =
    ModuleAddedEvent string
  | ModuleStartedEvent string
  | ModuleStoppedEvent string
  | GatewayAddedEvent string
  | GatewayStartedEvent string
  | GatewayStoppedEvent string
  | ComponentEvent string 'a

definition GatewayStartedEventType :: string where
  "GatewayStartedEventType = ''gateway.started''"

text \<open>
  A lifecycle method of a component is arbitrary code holding the registry and the
  event bus the kernel injected. It is modelled as a function on those two (the
  environment) that also says how the call ended: it returned nil, returned an error,
  or panicked.
\<close>

datatype outcome = Ok | Err string | Panic string

type_synonym 'a env = "('a, string) DefaultRegistry \<times> 'a TypedEvent bus"

type_synonym 'a callback = "'a env \<Rightarrow> outcome \<times> 'a env"

text \<open>
  The \<open>Module\<close> and \<open>Gateway\<close> interfaces. \<open>Dependencies\<close> is a Go map from module name
  to constraint; the list gives its entries in the order in which the kernel's \<open>range\<close>
  meets them. Durations are counted in nanoseconds. The methods \<open>Start\<close> and \<open>Stop\<close> of
  the two interfaces carry the interface name, since the kernel has methods of the same
  names.
\<close>

record 'a Module =
  Name :: string
  Version :: string
  Dependencies :: "(string \<times> string) list"
  ShutdownTimeout :: int
  OnLoad :: "'a callback"
  Configure :: "'a \<Rightarrow> 'a callback"
  ModuleStart :: "'a callback"
  RegisterServices :: "'a callback"
  OnReady :: "'a callback"
  ModuleStop :: "'a callback"
  OnConfigChanged :: "'a \<Rightarrow> 'a callback"
  UnregisterServices :: "'a callback"

record 'a Gateway =
  GatewayName :: string
  GatewayShutdownTimeout :: int
  GatewayConfigure :: "'a \<Rightarrow> 'a callback"
  GatewayStart :: "'a callback"
  GatewayStop :: "'a callback"

text \<open>The part of \<open>config.Config\<close> that the kernel reads. Timeouts are in seconds.\<close>

record 'a Config =
  Modules :: "string \<rightharpoonup> 'a"
  Gateways :: "string \<rightharpoonup> 'a"
  Timeouts_ConfigChange :: int
  Timeouts_ModuleOperation :: int
  Timeouts_GatewayOperation :: int

definition second :: int where
  "second = 1000000000"

definition moduleOperationTimeout :: int where
  "moduleOperationTimeout = 30 * second"

text \<open>
  A record of one lifecycle call made by the kernel: component type, component name,
  operation, and the timeout of the context the kernel derived for it (if it derived
  one). The kernel state carries the list of calls made so far; it is not a field of the
  Go struct but the trace on which ordering claims are stated.
\<close>

datatype call = Call string string string "int option"

text \<open>
  The struct \<open>kernel\<close>. The Go maps \<open>modules\<close> and \<open>gateways\<close> are association lists
  (the kernel ranges over them); \<open>moduleStates\<close> is only looked up and updated. The
  access controller is held through its interface, of which the kernel calls
  \<open>HasPermission\<close> only.
\<close>

record 'a kernel =
  k_config :: "'a Config"
  k_modules :: "(string \<times> 'a Module) list"
  k_gateways :: "(string \<times> 'a Gateway) list"
  k_moduleStates :: "string \<rightharpoonup> bool"
  k_running :: bool
  k_accessController :: "Principal \<Rightarrow> string \<Rightarrow> bool"
  k_registry :: "('a, string) DefaultRegistry"
  k_eventBus :: "'a TypedEvent bus"
  k_calls :: "call list"

text \<open>
  What the Go runtime chooses and the kernel does not: the order in which each
  \<open>range\<close> over a map meets the keys (one order for the loop that builds the dependency
  graph, one for the loop that seeds the queue, one for the gateways), and the choice
  among ready cases of a \<open>select\<close>.
\<close>

record Choices =
  graphOrder :: "string list"
  queueOrder :: "string list"
  gatewayOrder :: "string list"
  selectSend :: "nat \<Rightarrow> bool"

text \<open>Ranging over a map in a given key order.\<close>

definition rangeOver :: "string list \<Rightarrow> (string \<times> 'b) list \<Rightarrow> (string \<times> 'b) list" where
  "rangeOver ks al = List.map_filter (\<lambda>key. map_option (Pair key) (map_of al key)) ks"

text \<open>
  The library \<open>Masterminds/semver\<close> is not part of the repository. Its three functions
  that the kernel calls are parameters: parsing a version, parsing a constraint
  (\<open>None\<close> for a parse error), and checking a version against a constraint.
\<close>

record ('v, 'c) semver =
  NewVersion :: "string \<Rightarrow> 'v option"
  NewConstraint :: "string \<Rightarrow> 'c option"
  Check :: "'c \<Rightarrow> 'v \<Rightarrow> bool"

definition New_kernel :: "'a Config \<Rightarrow> (Principal \<Rightarrow> string \<Rightarrow> bool) option \<Rightarrow> 'a kernel" where
  "New_kernel cfg ac =
     (let ac' = (case ac of None \<Rightarrow> hasPermission (NewDefaultAccessController None)
                 | Some f \<Rightarrow> f)
      in \<lparr>k_config = cfg, k_modules = [], k_gateways = [], k_moduleStates = Map.empty,
          k_running = False, k_accessController = ac',
          k_registry = NewDefaultRegistry (Some ac'), k_eventBus = New, k_calls = []\<rparr>)"

text \<open>
  Calling a lifecycle method: the method runs on the registry and the bus, and the call
  is appended to the trace.
\<close>

definition invoke :: "call \<Rightarrow> 'a callback \<Rightarrow> 'a kernel \<Rightarrow> outcome \<times> 'a kernel" where
  "invoke c f k =
     (case f (k_registry k, k_eventBus k) of
        (r, (reg, bus)) \<Rightarrow>
          (r, k\<lparr>k_registry := reg, k_eventBus := bus, k_calls := k_calls k @ [c]\<rparr>))"

text \<open>\<open>safelyExecute\<close>: run \<open>fn\<close>; a panic is recovered and becomes an error.\<close>

definition safelyExecute ::
  "string \<Rightarrow> string \<Rightarrow> string \<Rightarrow> ('a kernel \<Rightarrow> outcome \<times> 'a kernel) \<Rightarrow> 'a kernel
     \<Rightarrow> error option \<times> 'a kernel" where
  "safelyExecute componentName componentType operation fn k =
     (case fn k of
        (Ok, k') \<Rightarrow> (None, k')
      | (Err e, k') \<Rightarrow> (Some (ErrText e), k')
      | (Panic r, k') \<Rightarrow> (Some (PanicError componentType componentName operation r), k'))"

text \<open>
  A method called outside \<open>safelyExecute\<close> whose returned error is discarded or only
  logged: what matters is whether it panicked.
\<close>

definition callIgnoringError :: "('a kernel \<Rightarrow> outcome \<times> 'a kernel) \<Rightarrow> 'a kernel \<Rightarrow> string option \<times> 'a kernel" where
  "callIgnoringError fn k =
     (case fn k of
        (Panic r, k') \<Rightarrow> (Some r, k')
      | (Ok, k') \<Rightarrow> (None, k')
      | (Err e, k') \<Rightarrow> (None, k'))"

fun isGoPanic :: "error \<Rightarrow> bool" where
  "isGoPanic (GoPanic v) = True"
| "isGoPanic e = False"

section \<open>Kernel: startup order (getModuleStartupOrder)\<close>

text \<open>The enabled modules: \<open>k.moduleStates[name]\<close> is false for a missing key.\<close>

definition enabledModules :: "'a kernel \<Rightarrow> (string \<times> 'a Module) list" where
  "enabledModules k = filter (\<lambda>(name, m). k_moduleStates k name = Some True) (k_modules k)"

text \<open>
  \<open>inDegree\<close> is a Go \<open>map[string]int\<close>, a finite map; reading a missing key gives 0.
  \<open>graph\<close> is a \<open>map[string][]string\<close> that is only read by key and appended to; reading
  a missing key gives the empty slice.
\<close>

definition deg :: "(string, int) fmap \<Rightarrow> string \<Rightarrow> int" where
  "deg inDegree n = (case fmlookup inDegree n of None \<Rightarrow> 0 | Some v \<Rightarrow> v)"

definition initInDegree :: "(string \<times> 'a Module) list \<Rightarrow> (string, int) fmap" where
  "initInDegree en = fold (\<lambda>(name, m) d. fmupd name 0 d) en fmempty"

text \<open>The loop over \<open>m.Dependencies()\<close> of the module \<open>name\<close>.\<close>

fun checkDependencies ::
  "('v, 'c) semver \<Rightarrow> (string \<times> 'a Module) list \<Rightarrow> string \<Rightarrow> (string \<times> string) list
     \<Rightarrow> (string \<Rightarrow> string list) \<times> (string, int) fmap
     \<Rightarrow> error + ((string \<Rightarrow> string list) \<times> (string, int) fmap)" where
  "checkDependencies sv en name [] (graph, inDegree) = Inr (graph, inDegree)"
| "checkDependencies sv en name ((depName, constraintStr) # rest) (graph, inDegree) =
     (case map_of en depName of
        None \<Rightarrow> Inl (MissingDependency name depName)
      | Some dep \<Rightarrow>
          (case NewConstraint sv constraintStr of
             None \<Rightarrow> Inl (InvalidConstraint name depName)
           | Some c \<Rightarrow>
               (case NewVersion sv (Version dep) of
                  None \<Rightarrow> Inl (DependencyInvalidVersion depName (Version dep))
                | Some depVersion \<Rightarrow>
                    (if \<not> Check sv c depVersion
                     then Inl (VersionMismatch name constraintStr depName (Version dep) errVersion)
                     else checkDependencies sv en name rest
                            (graph(depName := graph depName @ [name]),
                             fmupd name (deg inDegree name + 1) inDegree)))))"

text \<open>The loop over the enabled modules that validates versions and builds the graph.\<close>

fun buildGraph ::
  "('v, 'c) semver \<Rightarrow> (string \<times> 'a Module) list \<Rightarrow> (string \<times> 'a Module) list
     \<Rightarrow> (string \<Rightarrow> string list) \<times> (string, int) fmap
     \<Rightarrow> error + ((string \<Rightarrow> string list) \<times> (string, int) fmap)" where
  "buildGraph sv en [] acc = Inr acc"
| "buildGraph sv en ((name, m) # rest) acc =
     (case NewVersion sv (Version m) of
        None \<Rightarrow> Inl (InvalidVersion name (Version m))
      | Some v \<Rightarrow>
          (case checkDependencies sv en name (Dependencies m) acc of
             Inl e \<Rightarrow> Inl e
           | Inr acc' \<Rightarrow> buildGraph sv en rest acc'))"

text \<open>
  The inner loop of Kahn's algorithm, over \<open>graph[m.Name()]\<close>: decrement, and append
  \<open>enabledModules[dependentName]\<close> to the queue when the count reaches zero. That map
  read gives nil for a missing key, hence the queue of optional modules.
\<close>

fun decrementDependents ::
  "(string \<times> 'a Module) list \<Rightarrow> string list \<Rightarrow> (string, int) fmap \<times> 'a Module option list
     \<Rightarrow> (string, int) fmap \<times> 'a Module option list" where
  "decrementDependents en [] (inDegree, queue) = (inDegree, queue)"
| "decrementDependents en (dependentName # rest) (inDegree, queue) =
     (let inDegree' = fmupd dependentName (deg inDegree dependentName - 1) inDegree
      in decrementDependents en rest
           (inDegree',
            if deg inDegree' dependentName = 0 then queue @ [map_of en dependentName]
            else queue))"

text \<open>
  The outer loop, \<open>for len(queue) > 0\<close>. Taking a nil module from the queue panics at
  \<open>m.Name()\<close>. The loop ends on every input: each round removes one element, and an
  element is added only when a positive count drops to zero.
\<close>

function kahnLoop ::
  "(string \<Rightarrow> string list) \<Rightarrow> (string \<times> 'a Module) list \<Rightarrow> 'a Module option list
     \<Rightarrow> (string, int) fmap \<Rightarrow> 'a Module list \<Rightarrow> error + 'a Module list" where
  "kahnLoop graph en [] inDegree orderedModules = Inr orderedModules"
| "kahnLoop graph en (None # queue) inDegree orderedModules =
     Inl (GoPanic ''nil pointer dereference'')"
| "kahnLoop graph en (Some m # queue) inDegree orderedModules =
     (case decrementDependents en (graph (Name m)) (inDegree, queue) of
        (inDegree', queue') \<Rightarrow> kahnLoop graph en queue' inDegree' (orderedModules @ [m]))"
  by pat_completeness auto
termination
proof (relation "measure (\<lambda>(graph, en, queue, inDegree, orderedModules).
                   length queue + card {n. 0 < deg inDegree n})", goal_cases)
  case 1
  show ?case by simp
next
  case (2 graph en m queue inDegree orderedModules x y)
  have fin: "\<And>d :: (string, int) fmap. finite {n. 0 < deg d n}"
  proof -
    fix d :: "(string, int) fmap"
    have "{n. 0 < deg d n} \<subseteq> fmdom' d"
      by (auto simp: deg_def fmdom'I split: option.splits)
    then show "finite {n. 0 < deg d n}" by (rule finite_subset) simp
  qed
  have step: "decrementDependents en ds (d, q) = (d', q') \<Longrightarrow>
      length q' + card {n. 0 < deg d' n} \<le> length q + card {n. 0 < deg d n}"
    for ds d q d' q'
  proof (induction ds arbitrary: d q)
    case Nil
    then show ?case by simp
  next
    case (Cons a ds)
    let ?d1 = "fmupd a (deg d a - 1) d"
    let ?q1 = "if deg ?d1 a = 0 then q @ [map_of en a] else q"
    from Cons.prems have "decrementDependents en ds (?d1, ?q1) = (d', q')"
      by (simp add: Let_def)
    from Cons.IH [OF this]
    have ih: "length q' + card {n. 0 < deg d' n} \<le> length ?q1 + card {n. 0 < deg ?d1 n}" .
    have d1: "\<And>n v. deg (fmupd a v d) n = (if n = a then v else deg d n)"
      by (simp add: deg_def)
    have "length ?q1 + card {n. 0 < deg ?d1 n} \<le> length q + card {n. 0 < deg d n}"
    proof (cases "deg d a = 1")
      case True
      then have s: "{n. 0 < deg ?d1 n} = {n. 0 < deg d n} - {a}"
        by (auto simp: d1)
      from True have "a \<in> {n. 0 < deg d n}" by simp
      then have "card ({n. 0 < deg d n} - {a}) < card {n. 0 < deg d n}"
        using fin [of d] by (intro card_Diff1_less) auto
      with True s show ?thesis by (simp add: d1)
    next
      case False
      then have "{n. 0 < deg ?d1 n} = {n. 0 < deg d n}"
        by (auto simp: d1)
      with False show ?thesis by (simp add: d1)
    qed
    with ih show ?case by linarith
  qed
  from 2 have "decrementDependents en (graph (Name m)) (inDegree, queue) = (x, y)"
    by simp
  from step [OF this] show ?case by simp
qed

text \<open>
  \<open>getModuleStartupOrder\<close>. The two \<open>range\<close> loops whose order matters take their key
  order from \<open>ch\<close>; \<open>len(enabledModules)\<close> is the number of entries of the map.
\<close>

definition seedQueue :: "(string \<times> 'a Module) list \<Rightarrow> (string, int) fmap \<Rightarrow> 'a Module option list" where
  "seedQueue ens inDegree = map (\<lambda>(name, m). Some m) (filter (\<lambda>(name, m). deg inDegree name = 0) ens)"

definition getModuleStartupOrder ::
  "('v, 'c) semver \<Rightarrow> Choices \<Rightarrow> 'a kernel \<Rightarrow> error + 'a Module list" where
  "getModuleStartupOrder sv ch k =
     (let enabled = enabledModules k
      in case buildGraph sv enabled (rangeOver (graphOrder ch) enabled)
                (\<lambda>n. [], initInDegree enabled) of
           Inl e \<Rightarrow> Inl e
         | Inr (graph, inDegree) \<Rightarrow>
             (case kahnLoop graph enabled
                     (seedQueue (rangeOver (queueOrder ch) enabled) inDegree) inDegree [] of
                Inl e \<Rightarrow> Inl e
              | Inr orderedModules \<Rightarrow>
                  (if length orderedModules \<noteq> length enabled then Inl CircularDependency
                   else Inr orderedModules)))"

definition getModuleShutdownOrder ::
  "('v, 'c) semver \<Rightarrow> Choices \<Rightarrow> 'a kernel \<Rightarrow> error + 'a Module list" where
  "getModuleShutdownOrder sv ch k =
     (case getModuleStartupOrder sv ch k of
        Inl e \<Rightarrow> Inl e
      | Inr startupOrder \<Rightarrow> Inr (rev startupOrder))"

section \<open>Kernel: adding and removing modules\<close>

definition moduleOperationSeconds :: "'a kernel \<Rightarrow> int" where
  "moduleOperationSeconds k = Timeouts_ModuleOperation (k_config k) * second"

definition gatewayOperationSeconds :: "'a kernel \<Rightarrow> int" where
  "gatewayOperationSeconds k = Timeouts_GatewayOperation (k_config k) * second"

text \<open>
  \<open>AddModule\<close>, after the module has been stored and marked enabled (the part from
  \<open>m.SetEventBus\<close> on). \<open>SetEventBus\<close> and \<open>SetRegistry\<close> only hand the bus and the
  registry to the module; the methods below then act on them. \<open>running\<close> is the value of
  \<open>k.running\<close> read under the lock when the module was stored.
\<close>

definition addModuleStart :: "'a Module \<Rightarrow> 'a kernel \<Rightarrow> error option \<times> 'a kernel" where
  "addModuleStart m k =
     (let name = Name m
      in case safelyExecute name ''module'' ''Start''
                (invoke (Call ''module'' name ''Start'' (Some (moduleOperationSeconds k)))
                   (ModuleStart m)) k of
           (Some err, k1) \<Rightarrow>
             (Some (Wrap (''start module '' @ name) err),
              k1\<lparr>k_modules := AList.delete name (k_modules k1)\<rparr>)
         | (None, k1) \<Rightarrow>
             (case safelyExecute name ''module'' ''RegisterServices''
                     (invoke (Call ''module'' name ''RegisterServices''
                                (Some (moduleOperationSeconds k1)))
                        (RegisterServices m)) k1 of
                (err2, k2) \<Rightarrow>
                  (case safelyExecute name ''module'' ''OnReady''
                          (invoke (Call ''module'' name ''OnReady''
                                     (Some (moduleOperationSeconds k2)))
                             (OnReady m)) k2 of
                     (err3, k3) \<Rightarrow> (None, k3))))"

definition addModuleLifecycle :: "bool \<Rightarrow> 'a Module \<Rightarrow> 'a kernel \<Rightarrow> error option \<times> 'a kernel" where
  "addModuleLifecycle running m k =
     (let name = Name m
      in case safelyExecute name ''module'' ''OnLoad''
                (invoke (Call ''module'' name ''OnLoad'' (Some (moduleOperationSeconds k)))
                   (OnLoad m)) k of
           (Some err, k1) \<Rightarrow>
             (Some (Wrap (''module '' @ name @ '' OnLoad'') err),
              k1\<lparr>k_modules := AList.delete name (k_modules k1)\<rparr>)
         | (None, k1) \<Rightarrow>
             (case (case Modules (k_config k1) name of
                      None \<Rightarrow> (None, k1)
                    | Some moduleConfig \<Rightarrow>
                        safelyExecute name ''module'' ''Configure''
                          (invoke (Call ''module'' name ''Configure'' (Some moduleOperationTimeout))
                             (Configure m moduleConfig)) k1) of
                (Some err, k2) \<Rightarrow> (Some (Wrap (''configure module '' @ name) err), k2)
              | (None, k2) \<Rightarrow>
                  (if running then addModuleStart m k2 else (None, k2))))"

definition AddModule :: "Context \<Rightarrow> 'a Module option \<Rightarrow> 'a kernel \<Rightarrow> error option \<times> 'a kernel" where
  "AddModule ctx mo k =
     (case mo of
        None \<Rightarrow> (Some ModuleIsNil, k)
      | Some m \<Rightarrow>
          (let name = Name m
           in if name = [] then (Some ModuleNameEmpty, k)
              else case PrincipalFromContext ctx of
                     None \<Rightarrow> (Some (SecurityViolation ''AddModule'' name), k)
                   | Some p \<Rightarrow>
                       (if \<not> k_accessController k p ''kernel.module.add''
                        then (Some (AccessDenied (ID p) ''add'' name), k)
                        else if map_of (k_modules k) name \<noteq> None
                        then (Some (Wrap (''module '' @ name) errDuplicate), k)
                        else addModuleLifecycle (k_running k) m
                               (k\<lparr>k_modules := AList.update name m (k_modules k),
                                  k_moduleStates := (k_moduleStates k)(name \<mapsto> True)\<rparr>))))"

text \<open>
  \<open>RemoveModule\<close>. The entry is deleted from both maps and the module's services are
  unregistered before the module is stopped; when \<open>Stop\<close> fails the two map entries are
  written back.
\<close>

definition RemoveModule :: "Context \<Rightarrow> string \<Rightarrow> 'a kernel \<Rightarrow> error option \<times> 'a kernel" where
  "RemoveModule ctx name k =
     (if name = [] then (Some ModuleNameEmpty, k)
      else case PrincipalFromContext ctx of
             None \<Rightarrow> (Some (SecurityViolation ''RemoveModule'' name), k)
           | Some p \<Rightarrow>
               (if \<not> k_accessController k p ''kernel.module.remove''
                then (Some (AccessDenied (ID p) ''remove'' name), k)
                else case map_of (k_modules k) name of
                       None \<Rightarrow> (Some (Wrap (''module '' @ name) errNotFound), k)
                     | Some m \<Rightarrow>
                         (let running = k_running k;
                              k1 = k\<lparr>k_modules := AList.delete name (k_modules k),
                                     k_moduleStates := (k_moduleStates k)(name := None)\<rparr>
                          in case UnregisterServicesByModule (k_registry k1) name of
                               None \<Rightarrow> (Some Blocked, k1)
                             | Some reg \<Rightarrow>
                                 (let k2 = k1\<lparr>k_registry := reg\<rparr>
                                  in if running
                                     then (case safelyExecute (Name m) ''module'' ''Stop''
                                                  (invoke (Call ''module'' (Name m) ''Stop''
                                                             (Some (moduleOperationSeconds k2)))
                                                     (ModuleStop m)) k2 of
                                             (Some err, k3) \<Rightarrow>
                                               (Some (Wrap (''stop module '' @ name) err),
                                                k3\<lparr>k_modules := AList.update name m (k_modules k3),
                                                   k_moduleStates := (k_moduleStates k3)(name \<mapsto> True)\<rparr>)
                                           | (None, k3) \<Rightarrow> (None, k3))
                                     else (None, k2)))))"

definition GetModule :: "'a kernel \<Rightarrow> string \<Rightarrow> 'a Module option" where
  "GetModule k name = map_of (k_modules k) name"

definition Running :: "'a kernel \<Rightarrow> bool" where
  "Running k = k_running k"

section \<open>Kernel: enabling and disabling modules\<close>



section \<open>Kernel: Start and Stop\<close>

text \<open>
  The rollback loop of the module start phase: it walks \<open>orderedModules\<close> from the last
  index down, leaves the loop at the module whose start failed, and calls \<open>Stop\<close> (with
  a background context, outside \<open>safelyExecute\<close>, discarding the error) on every module
  it meets before that. The list argument is \<open>orderedModules\<close> reversed.
\<close>

fun stopReverseUntil :: "string \<Rightarrow> 'a Module list \<Rightarrow> 'a kernel \<Rightarrow> string option \<times> 'a kernel" where
  "stopReverseUntil failed [] k = (None, k)"
| "stopReverseUntil failed (x # xs) k =
     (if Name x = failed then (None, k)
      else case callIgnoringError
                  (invoke (Call ''module'' (Name x) ''Stop'' None) (ModuleStop x)) k of
             (Some v, k') \<Rightarrow> (Some v, k')
           | (None, k') \<Rightarrow> stopReverseUntil failed xs k')"

text \<open>The loop that stops all of \<open>orderedModules\<close> from the last index down.\<close>

fun stopAllReverse :: "'a Module list \<Rightarrow> 'a kernel \<Rightarrow> string option \<times> 'a kernel" where
  "stopAllReverse [] k = (None, k)"
| "stopAllReverse (x # xs) k =
     (case callIgnoringError
             (invoke (Call ''module'' (Name x) ''Stop'' None) (ModuleStop x)) k of
        (Some v, k') \<Rightarrow> (Some v, k')
      | (None, k') \<Rightarrow> stopAllReverse xs k')"

text \<open>Phase: start the modules in order (\<open>all\<close> is the whole of \<open>orderedModules\<close>).\<close>

fun startModules :: "'a Module list \<Rightarrow> 'a Module list \<Rightarrow> 'a kernel \<Rightarrow> error option \<times> 'a kernel" where
  "startModules all [] k = (None, k)"
| "startModules all (m # rest) k =
     (case safelyExecute (Name m) ''module'' ''Start''
             (invoke (Call ''module'' (Name m) ''Start'' None) (ModuleStart m)) k of
        (Some err, k1) \<Rightarrow>
          (case stopReverseUntil (Name m) (rev all) (k1\<lparr>k_running := False\<rparr>) of
             (Some v, k2) \<Rightarrow> (Some (GoPanic v), k2)
           | (None, k2) \<Rightarrow> (Some (Wrap (''start module '' @ Name m) err), k2))
      | (None, k1) \<Rightarrow> startModules all rest k1)"

text \<open>Phase: \<open>RegisterServices\<close> for every module, in order.\<close>

fun registerServicesAll :: "'a Module list \<Rightarrow> 'a Module list \<Rightarrow> 'a kernel \<Rightarrow> error option \<times> 'a kernel" where
  "registerServicesAll all [] k = (None, k)"
| "registerServicesAll all (m # rest) k =
     (case safelyExecute (Name m) ''module'' ''RegisterServices''
             (invoke (Call ''module'' (Name m) ''RegisterServices'' None) (RegisterServices m)) k of
        (Some err, k1) \<Rightarrow>
          (case stopAllReverse (rev all) k1 of
             (Some v, k2) \<Rightarrow> (Some (GoPanic v), k2)
           | (None, k2) \<Rightarrow>
               (Some (Wrap (''module '' @ Name m @ '' RegisterServices'') err), k2))
      | (None, k1) \<Rightarrow> registerServicesAll all rest k1)"

text \<open>
  Phase: \<open>OnReady\<close> for every module, in order. On an error the module is stopped under
  a context bounded by its \<open>ShutdownTimeout\<close>, and the loop returns the wrapped error.
\<close>

fun onReadyAll :: "'a Module list \<Rightarrow> 'a kernel \<Rightarrow> error option \<times> 'a kernel" where
  "onReadyAll [] k = (None, k)"
| "onReadyAll (m # rest) k =
     (case safelyExecute (Name m) ''module'' ''OnReady''
             (invoke (Call ''module'' (Name m) ''OnReady'' None) (OnReady m)) k of
        (Some err, k1) \<Rightarrow>
          (case callIgnoringError
                  (invoke (Call ''module'' (Name m) ''Stop'' (Some (ShutdownTimeout m)))
                     (ModuleStop m)) k1 of
             (Some v, k2) \<Rightarrow> (Some (GoPanic v), k2)
           | (None, k2) \<Rightarrow> (Some (Wrap (''module '' @ Name m @ '' OnReady'') err), k2))
      | (None, k1) \<Rightarrow> onReadyAll rest k1)"

text \<open>
  The loop that stops the gateways started before the failed one: it walks
  \<open>gatewaysToStart\<close> from the front and leaves at the failed gateway. Gateways are
  compared by name, the key under which each is stored.
\<close>

fun stopGatewaysUntil :: "string \<Rightarrow> 'a Gateway list \<Rightarrow> 'a kernel \<Rightarrow> string option \<times> 'a kernel" where
  "stopGatewaysUntil failed [] k = (None, k)"
| "stopGatewaysUntil failed (g # gs) k =
     (if GatewayName g = failed then (None, k)
      else case callIgnoringError
                  (invoke (Call ''gateway'' (GatewayName g) ''Stop'' None) (GatewayStop g)) k of
             (Some v, k') \<Rightarrow> (Some v, k')
           | (None, k') \<Rightarrow> stopGatewaysUntil failed gs k')"

text \<open>Phase: start the gateways, publishing \<open>gateway.started\<close> after each.\<close>

fun startGateways ::
  "Choices \<Rightarrow> Context \<Rightarrow> 'a Module list \<Rightarrow> 'a Gateway list \<Rightarrow> 'a Gateway list \<Rightarrow> 'a kernel
     \<Rightarrow> error option \<times> 'a kernel" where
  "startGateways ch ctx orderedModules all [] k = (None, k)"
| "startGateways ch ctx orderedModules all (g # rest) k =
     (case safelyExecute (GatewayName g) ''gateway'' ''Start''
             (invoke (Call ''gateway'' (GatewayName g) ''Start''
                        (Some (gatewayOperationSeconds k)))
                (GatewayStart g)) k of
        (Some err, k1) \<Rightarrow>
          (case stopGatewaysUntil (GatewayName g) all (k1\<lparr>k_running := False\<rparr>) of
             (Some v, k2) \<Rightarrow> (Some (GoPanic v), k2)
           | (None, k2) \<Rightarrow>
               (case stopAllReverse (rev orderedModules) k2 of
                  (Some v, k3) \<Rightarrow> (Some (GoPanic v), k3)
                | (None, k3) \<Rightarrow> (Some (Wrap (''start gateway '' @ GatewayName g) err), k3)))
      | (None, k1) \<Rightarrow>
          (case Publish ctx (selectSend ch) (k_eventBus k1) GatewayStartedEventType
                  (GatewayStartedEvent (GatewayName g)) of
             None \<Rightarrow> (Some (GoPanic ''send on closed channel''), k1)
           | Some bus \<Rightarrow>
               startGateways ch ctx orderedModules all rest (k1\<lparr>k_eventBus := bus\<rparr>)))"


definition gatewaysInOrder :: "Choices \<Rightarrow> 'a kernel \<Rightarrow> 'a Gateway list" where
  "gatewaysInOrder ch k = map snd (rangeOver (gatewayOrder ch) (k_gateways k))"

definition Start ::
  "('v, 'c) semver \<Rightarrow> Choices \<Rightarrow> Context \<Rightarrow> 'a kernel \<Rightarrow> error option \<times> 'a kernel" where
  "Start sv ch ctx k =
     (if k_running k then (Some errAlreadyRunning, k)
      else
        (let k1 = k\<lparr>k_running := True\<rparr>;
             gatewaysToStart = gatewaysInOrder ch k1
         in case getModuleStartupOrder sv ch k1 of
              Inl err \<Rightarrow>
                (if isGoPanic err then (Some err, k1)
                 else (Some (Wrap ''module startup order'' err), k1\<lparr>k_running := False\<rparr>))
            | Inr orderedModules \<Rightarrow>
                (case startModules orderedModules orderedModules k1 of
                   (Some err, k2) \<Rightarrow> (Some err, k2)
                 | (None, k2) \<Rightarrow>
                     (case registerServicesAll orderedModules orderedModules k2 of
                        (Some err, k3) \<Rightarrow> (Some err, k3)
                      | (None, k3) \<Rightarrow>
                          (case onReadyAll orderedModules k3 of
                             (Some err, k4) \<Rightarrow> (Some err, k4)
                           | (None, k4) \<Rightarrow>
                               startGateways ch ctx orderedModules gatewaysToStart
                                 gatewaysToStart k4)))))"

text \<open>The two stop loops of \<open>Stop\<close>, which keep the first error and go on.\<close>

fun stopGateways :: "'a Gateway list \<Rightarrow> error option \<Rightarrow> 'a kernel \<Rightarrow> error option \<times> 'a kernel" where
  "stopGateways [] firstErr k = (firstErr, k)"
| "stopGateways (g # rest) firstErr k =
     (let timeout = (if GatewayShutdownTimeout g \<le> 0 then gatewayOperationSeconds k
                     else GatewayShutdownTimeout g)
      in case safelyExecute (GatewayName g) ''gateway'' ''Stop''
                (invoke (Call ''gateway'' (GatewayName g) ''Stop'' (Some timeout))
                   (GatewayStop g)) k of
           (Some err, k1) \<Rightarrow>
             stopGateways rest
               (if firstErr = None then Some (Wrap (''stop gateway '' @ GatewayName g) err)
                else firstErr) k1
         | (None, k1) \<Rightarrow> stopGateways rest firstErr k1)"

fun stopModules :: "'a Module list \<Rightarrow> error option \<Rightarrow> 'a kernel \<Rightarrow> error option \<times> 'a kernel" where
  "stopModules [] firstErr k = (firstErr, k)"
| "stopModules (m # rest) firstErr k =
     (let timeout = (if ShutdownTimeout m \<le> 0 then moduleOperationSeconds k
                     else ShutdownTimeout m)
      in case safelyExecute (Name m) ''module'' ''Stop''
                (invoke (Call ''module'' (Name m) ''Stop'' (Some timeout)) (ModuleStop m)) k of
           (Some err, k1) \<Rightarrow>
             stopModules rest
               (if firstErr = None then Some (Wrap (''stop module '' @ Name m) err)
                else firstErr) k1
         | (None, k1) \<Rightarrow> stopModules rest firstErr k1)"

definition Stop ::
  "('v, 'c) semver \<Rightarrow> Choices \<Rightarrow> Context \<Rightarrow> 'a kernel \<Rightarrow> error option \<times> 'a kernel" where
  "Stop sv ch ctx k =
     (if \<not> k_running k then (Some errNotRunning, k)
      else
        (let k1 = k\<lparr>k_running := False\<rparr>
         in case getModuleShutdownOrder sv ch k1 of
              Inl err \<Rightarrow>
                (if isGoPanic err then (Some err, k1)
                 else (case stopGateways (gatewaysInOrder ch k1) None k1 of
                         (firstErr, k2) \<Rightarrow> stopModules [] firstErr k2))
            | Inr orderedModulesToStop \<Rightarrow>
                (case stopGateways (gatewaysInOrder ch k1) None k1 of
                   (firstErr, k2) \<Rightarrow> stopModules orderedModulesToStop firstErr k2)))"

section \<open>Test doubles\<close>

text \<open>
  A module in the manner of \<open>recModule\<close> of the kernel tests: fixed name, version and
  dependencies, a five-second shutdown timeout, every method returning nil and leaving
  the registry and the bus alone. \<open>registering\<close> is the same module whose
  \<open>RegisterServices\<close> registers the service \<open>name + "Service"\<close>, as \<open>recModule\<close> does. A
  gateway in the manner of \<open>recGateway\<close>.
\<close>

definition returns :: "outcome \<Rightarrow> 'a callback" where
  "returns r = (\<lambda>e. (r, e))"

definition recModule :: "string \<Rightarrow> string \<Rightarrow> (string \<times> string) list \<Rightarrow> nat Module" where
  "recModule name ver deps =
     \<lparr>Name = name, Version = ver, Dependencies = deps, ShutdownTimeout = 5 * second,
      OnLoad = returns Ok, Configure = (\<lambda>cfg. returns Ok), ModuleStart = returns Ok,
      RegisterServices = returns Ok, OnReady = returns Ok, ModuleStop = returns Ok,
      OnConfigChanged = (\<lambda>cfg. returns Ok), UnregisterServices = returns Ok\<rparr>"

definition registerOwnService :: "string \<Rightarrow> nat callback" where
  "registerOwnService name =
     (\<lambda>(reg, bus). case RegisterService reg (name @ ''Service'') 0 name of
                      (None, reg') \<Rightarrow> (Ok, (reg', bus))
                    | (Some e, reg') \<Rightarrow> (Err ''already registered'', (reg', bus)))"

definition recGateway :: "string \<Rightarrow> nat Gateway" where
  "recGateway name =
     \<lparr>GatewayName = name, GatewayShutdownTimeout = 5 * second,
      GatewayConfigure = (\<lambda>cfg. returns Ok), GatewayStart = returns Ok,
      GatewayStop = returns Ok\<rparr>"

text \<open>A semver stand-in for the examples: versions \<open>1.0.0\<close> and \<open>1.5.0\<close>, and the
  constraints \<open>^1.0.0\<close> (both satisfy it) and \<open>^2.0.0\<close> (neither does).\<close>

definition exampleSemver :: "(nat, nat) semver" where
  "exampleSemver =
     \<lparr>NewVersion = (\<lambda>s. if s = ''1.0.0'' then Some 100 else if s = ''1.5.0'' then Some 150
                        else None),
      NewConstraint = (\<lambda>s. if s = ''^1.0.0'' then Some 1 else if s = ''^2.0.0'' then Some 2
                           else None),
      Check = (\<lambda>c v. c = 1)\<rparr>"

definition exampleConfig :: "nat Config" where
  "exampleConfig =
     \<lparr>Modules = Map.empty, Gateways = Map.empty, Timeouts_ConfigChange = 5,
      Timeouts_ModuleOperation = 10, Timeouts_GatewayOperation = 10\<rparr>"

definition systemCtx :: Context where
  "systemCtx = ContextWithPrincipal Background
                 \<lparr>ID = ''test-kernel'', Type = ''system'', Roles = [''kernel.module.*'']\<rparr>"

text \<open>
  Example kernels. \<open>chainKernel\<close> holds the enabled modules \<open>A\<close>, \<open>B\<close> (depending on
  \<open>A\<close>) and \<open>C\<close> (depending on \<open>B\<close> and \<open>A\<close>) and the gateway \<open>devnull\<close>;
  \<open>cycleKernel\<close> holds \<open>A\<close> and \<open>B\<close> depending on each other. \<open>exampleChoices\<close> fixes
  one run of the map iterations.
\<close>

definition kernelWith :: "(string \<times> nat Module) list \<Rightarrow> (string \<times> nat Gateway) list \<Rightarrow> nat kernel" where
  "kernelWith ms gs =
     (New_kernel exampleConfig None)
       \<lparr>k_modules := ms, k_gateways := gs,
        k_moduleStates := map_of (map (\<lambda>(n, m). (n, True)) ms)\<rparr>"

definition chainKernel :: "nat kernel" where
  "chainKernel =
     kernelWith
       [(''A'', recModule ''A'' ''1.0.0'' []),
        (''B'', recModule ''B'' ''1.0.0'' [(''A'', ''^1.0.0'')]),
        (''C'', recModule ''C'' ''1.0.0'' [(''B'', ''^1.0.0''), (''A'', ''^1.0.0'')])]
       [(''devnull'', recGateway ''devnull'')]"

definition cycleKernel :: "nat kernel" where
  "cycleKernel =
     kernelWith
       [(''A'', recModule ''A'' ''1.0.0'' [(''B'', ''^1.0.0'')]),
        (''B'', recModule ''B'' ''1.0.0'' [(''A'', ''^1.0.0'')])]
       []"

definition exampleChoices :: Choices where
  "exampleChoices =
     \<lparr>graphOrder = [''C'', ''A'', ''B''], queueOrder = [''B'', ''C'', ''A''],
      gatewayOrder = [''devnull''], selectSend = (\<lambda>ch. True)\<rparr>"

definition cycleChoices :: Choices where
  "cycleChoices =
     \<lparr>graphOrder = [''B'', ''A''], queueOrder = [''A'', ''B''],
      gatewayOrder = [], selectSend = (\<lambda>ch. True)\<rparr>"

text \<open>
  Kernels for the failure scenarios. In \<open>onReadyFailKernel\<close> the module \<open>A\<close> fails in
  \<open>OnReady\<close>; in \<open>startFailKernel\<close> the module \<open>B\<close> of the chain fails in \<open>Start\<close>; in
  \<open>stopFailKernel\<close>, which is running, the module \<open>A\<close> fails in \<open>Stop\<close> and owns the
  registered service \<open>AService\<close>. \<open>configuredConfig\<close> has a configuration slice for \<open>A\<close>.
\<close>

definition onReadyFailKernel :: "nat kernel" where
  "onReadyFailKernel =
     kernelWith
       [(''A'', (recModule ''A'' ''1.0.0'' [])\<lparr>OnReady := returns (Err ''not ready'')\<rparr>),
        (''B'', recModule ''B'' ''1.0.0'' [(''A'', ''^1.0.0'')])]
       [(''devnull'', recGateway ''devnull'')]"

definition twoChoices :: Choices where
  "twoChoices =
     \<lparr>graphOrder = [''B'', ''A''], queueOrder = [''B'', ''A''],
      gatewayOrder = [''devnull''], selectSend = (\<lambda>ch. True)\<rparr>"

definition startFailKernel :: "nat kernel" where
  "startFailKernel =
     kernelWith
       [(''A'', recModule ''A'' ''1.0.0'' []),
        (''B'', (recModule ''B'' ''1.0.0'' [(''A'', ''^1.0.0'')])
                  \<lparr>ModuleStart := returns (Err ''boom'')\<rparr>),
        (''C'', recModule ''C'' ''1.0.0'' [(''B'', ''^1.0.0''), (''A'', ''^1.0.0'')])]
       [(''devnull'', recGateway ''devnull'')]"

definition stopFailKernel :: "nat kernel" where
  "stopFailKernel =
     (kernelWith
        [(''A'', (recModule ''A'' ''1.0.0'' [])\<lparr>ModuleStop := returns (Err ''busy'')\<rparr>)] [])
       \<lparr>k_running := True,
        k_registry := \<lparr>services = [(''AService'', \<lparr>service = 0, moduleName = ''A''\<rparr>)],
                       gateways = [], accessController = (\<lambda>p perm. True)\<rparr>\<rparr>"

definition configuredConfig :: "nat Config" where
  "configuredConfig = exampleConfig\<lparr>Modules := [''A'' \<mapsto> 7]\<rparr>"

section \<open>Kernel: reload and gateways\<close>






section \<open>Kernel: histories of operations\<close>





text \<open>Two kernel states with the same module map and the same enabled-state map.\<close>

definition sameModules :: "'a kernel \<Rightarrow> 'a kernel \<Rightarrow> bool" where
  "sameModules k k' \<longleftrightarrow> k_modules k' = k_modules k \<and> k_moduleStates k' = k_moduleStates k"




section \<open>Vocabulary for the startup order\<close>

text \<open>
  The dependency names a module declares; the dependency graph among the enabled
  modules, as the set of edges from a dependency to its dependent; and what it means for
  a sequence of modules to be in dependency order: each module's dependencies are among
  the modules before it (\<open>seen\<close> holds the names met so far).
\<close>

definition depNames :: "'a Module \<Rightarrow> string list" where
  "depNames m = map fst (Dependencies m)"

definition dependencyEdges :: "(string \<times> 'a Module) list \<Rightarrow> (string \<times> string) set" where
  "dependencyEdges en = {(d, n). \<exists>m. (n, m) \<in> set en \<and> d \<in> set (depNames m)}"

fun inDependencyOrder :: "string set \<Rightarrow> 'a Module list \<Rightarrow> bool" where
  "inDependencyOrder seen [] = True"
| "inDependencyOrder seen (m # ms) =
     (set (depNames m) \<subseteq> seen \<and> inDependencyOrder (insert (Name m) seen) ms)"

text \<open>
  What the kernel's maps guarantee: keys are unique, each module is stored under its own
  name (\<open>AddModule\<close> stores \<open>m\<close> under \<open>m.Name()\<close>), and the keys of a \<open>Dependencies\<close> map
  are unique.
\<close>

definition wellFormedModules :: "(string \<times> 'a Module) list \<Rightarrow> bool" where
  "wellFormedModules en \<longleftrightarrow>
     distinct (map fst en)
     \<and> list_all (\<lambda>(n, m). Name m = n \<and> distinct (depNames m)) en"

text \<open>Every enabled module's version parses.\<close>

definition versionsParse :: "('v, 'c) semver \<Rightarrow> (string \<times> 'a Module) list \<Rightarrow> bool" where
  "versionsParse sv en \<longleftrightarrow> list_all (\<lambda>(n, m). NewVersion sv (Version m) \<noteq> None) en"

text \<open>
  Every declared dependency is an enabled module, its constraint parses, and the
  dependency's version satisfies it.
\<close>

definition dependencySatisfied ::
  "('v, 'c) semver \<Rightarrow> (string \<times> 'a Module) list \<Rightarrow> string \<times> string \<Rightarrow> bool" where
  "dependencySatisfied sv en dc =
     (case map_of en (fst dc) of
        None \<Rightarrow> False
      | Some dep \<Rightarrow>
          (case NewConstraint sv (snd dc) of
             None \<Rightarrow> False
           | Some c \<Rightarrow>
               (case NewVersion sv (Version dep) of
                  None \<Rightarrow> False
                | Some v \<Rightarrow> Check sv c v)))"

definition constraintsSatisfied :: "('v, 'c) semver \<Rightarrow> (string \<times> 'a Module) list \<Rightarrow> bool" where
  "constraintsSatisfied sv en \<longleftrightarrow>
     list_all (\<lambda>(n, m). list_all (dependencySatisfied sv en) (Dependencies m)) en"

text \<open>A key order that meets every key of the map exactly once.\<close>

definition enumerates :: "string list \<Rightarrow> (string \<times> 'b) list \<Rightarrow> bool" where
  "enumerates ks al \<longleftrightarrow> distinct ks \<and> set ks = fst ` set al"

text \<open>
  The invariant of Kahn's loop, for the proof: the queue holds modules of the map, no
  module is twice in the output and the queue, the counter of a module is the number of
  its dependencies not yet in the output, the modules in the output or the queue are
  those whose dependencies are all in the output, and the output is in dependency order.
\<close>

definition kahnInv ::
  "(string \<times> 'a Module) list \<Rightarrow> 'a Module option list \<Rightarrow> (string, int) fmap \<Rightarrow> 'a Module list \<Rightarrow> bool" where
  "kahnInv en queue inDegree out \<longleftrightarrow>
     (\<exists>qm. queue = map Some qm
        \<and> (\<forall>x \<in> set (out @ qm). (Name x, x) \<in> set en)
        \<and> distinct (map Name (out @ qm))
        \<and> (\<forall>(n, m) \<in> set en. deg inDegree n = int (card (set (depNames m) - set (map Name out))))
        \<and> (\<forall>(n, m) \<in> set en. set (depNames m) \<subseteq> set (map Name out)
                                \<longleftrightarrow> n \<in> set (map Name (out @ qm)))
        \<and> inDependencyOrder {} out)"

definition kahnFinal :: "(string \<times> 'a Module) list \<Rightarrow> 'a Module list \<Rightarrow> bool" where
  "kahnFinal en out \<longleftrightarrow>
     (\<forall>x \<in> set out. (Name x, x) \<in> set en)
     \<and> distinct (map Name out)
     \<and> (\<forall>(n, m) \<in> set en. set (depNames m) \<subseteq> set (map Name out) \<longleftrightarrow> n \<in> set (map Name out))
     \<and> inDependencyOrder {} out"

text \<open>The position of the first module of that name in a sequence.\<close>

fun posOf :: "string \<Rightarrow> 'a Module list \<Rightarrow> nat" where
  "posOf n [] = 0"
| "posOf n (m # ms) = (if Name m = n then 0 else Suc (posOf n ms))"

section \<open>Properties of the access controller\<close>

lemma underscore_disallowed: "\<not> allowedChar CHR ''_''"
  by (simp add: allowedChar_def)

lemma dropWhile_replaceEachDisallowed:
  "dropWhile (\<lambda>x. \<not> allowedChar x) (replaceEachDisallowed cs)
   = replaceEachDisallowed (dropWhile (\<lambda>x. \<not> allowedChar x) cs)"
  unfolding replaceEachDisallowed_def
  by (induction cs) (auto simp: underscore_disallowed)

lemma sanitize_replaceEachDisallowed:
  "sanitizePermissionComponent (replaceEachDisallowed s) = sanitizePermissionComponent s"
proof (induction s rule: sanitizePermissionComponent.induct)
  case 1
  then show ?case by (simp add: replaceEachDisallowed_def)
next
  case (2 c cs)
  show ?case
  proof (cases "allowedChar c")
    case True
    with 2 show ?thesis by (simp add: replaceEachDisallowed_def)
  next
    case False
    with 2 dropWhile_replaceEachDisallowed [of cs] show ?thesis
      by (simp add: replaceEachDisallowed_def underscore_disallowed)
  qed
qed

lemma sanitize_idem:
  "sanitizePermissionComponent (sanitizePermissionComponent s) = sanitizePermissionComponent s"
proof (induction s rule: sanitizePermissionComponent.induct)
  case 1
  then show ?case by simp
next
  case (2 c cs)
  show ?case
  proof (cases "allowedChar c")
    case True
    with 2 show ?thesis by simp
  next
    case False
    let ?r = "dropWhile (\<lambda>x. \<not> allowedChar x) cs"
    have run: "dropWhile (\<lambda>x. \<not> allowedChar x) (sanitizePermissionComponent ?r)
               = sanitizePermissionComponent ?r"
    proof (cases ?r)
      case Nil
      show ?thesis unfolding Nil by simp
    next
      case (Cons a as)
      then have "allowedChar a"
        using hd_dropWhile [of "\<lambda>x. \<not> allowedChar x" cs] by auto
      with Cons show ?thesis by simp
    qed
    with 2 False show ?thesis by (simp add: underscore_disallowed)
  qed
qed

text \<open>
  C6 (evaluation at the diverging input). A principal whose only role name is the
  wildcard \<open>core.module.*\<close>, under a provider that resolves no role, asks for
  \<open>core.modulex\<close>. The permission differs from the role name and does not begin with
  \<open>core.module.\<close> (the prefix through the dot), and no role is resolved, so none of the
  three stated conditions holds; \<open>HasPermission\<close> nevertheless answers true, because it
  compares with the prefix without its dot.
\<close>

theorem HasPermission_wildcard_ignores_dot:
  "HasPermission (Some (\<lambda>n. None))
     \<lparr>ID = ''u'', Type = ''user'', Roles = [''core.module.*'']\<rparr> ''core.modulex''
   \<and> ''core.module.*'' \<noteq> ''core.modulex''
   \<and> take (length ''core.module.'') ''core.modulex'' \<noteq> ''core.module.''"
  by (simp add: HasPermission_def wildcardGrants_def)

text \<open>
  C7. For every access controller, principal and dynamic component \<open>s\<close>, each of the
  four permission-derived helpers decides \<open>s\<close> as it decides the string in which every
  single byte outside \<open>[A-Za-z0-9.-]\<close> is replaced by an underscore, and sanitizing a
  sanitized string returns it unchanged.
\<close>

theorem sanitized_component_same_decision:
  "CanPublishEvent ac p s = CanPublishEvent ac p (replaceEachDisallowed s)
   \<and> CanSubscribeEvent ac p s = CanSubscribeEvent ac p (replaceEachDisallowed s)
   \<and> CanAccessConfig ac p s = CanAccessConfig ac p (replaceEachDisallowed s)
   \<and> CanReloadModule ac p s = CanReloadModule ac p (replaceEachDisallowed s)
   \<and> sanitizePermissionComponent (sanitizePermissionComponent s)
       = sanitizePermissionComponent s"
  by (cases ac) (simp_all add: sanitize_replaceEachDisallowed sanitize_idem)

section \<open>Properties of the registry\<close>

text \<open>
  C8. \<open>GetService\<close> returns the stored service value exactly when the name is
  registered, the context carries a principal and the access controller grants that
  principal \<open>service.<owningModule>.<name>.access\<close>; an absent name gives the not-found
  error, a missing principal and a refused permission give the two security errors; in
  every other case than success the result is an error; and the registry is always
  returned unchanged.
\<close>

theorem GetService_authorized_lookup:
  "(fst (GetService r ctx name) = Inr v \<longleftrightarrow>
      (\<exists>entry p. map_of (services r) name = Some entry \<and> PrincipalFromContext ctx = Some p
         \<and> accessController r p (servicePermission (moduleName entry) name)
         \<and> v = service entry))
   \<and> (map_of (services r) name = None
        \<longrightarrow> fst (GetService r ctx name) = Inl (ServiceNotFound name))
   \<and> (map_of (services r) name \<noteq> None \<and> PrincipalFromContext ctx = None
        \<longrightarrow> fst (GetService r ctx name) = Inl (NoPrincipalInContext name))
   \<and> (\<forall>entry p. map_of (services r) name = Some entry \<and> PrincipalFromContext ctx = Some p
         \<and> \<not> accessController r p (servicePermission (moduleName entry) name)
        \<longrightarrow> fst (GetService r ctx name)
             = Inl (NotAuthorized (ID p) (Type p) name (servicePermission (moduleName entry) name)))
   \<and> ((\<nexists>entry p. map_of (services r) name = Some entry \<and> PrincipalFromContext ctx = Some p
         \<and> accessController r p (servicePermission (moduleName entry) name))
        \<longrightarrow> (\<exists>e. fst (GetService r ctx name) = Inl e))
   \<and> snd (GetService r ctx name) = r"
  by (auto simp: GetService_def Let_def split: option.splits)

theorem GetService_authorized_lookup_witness:
  "fst (GetService
         \<lparr>services = [(''db'', \<lparr>service = (7::nat), moduleName = ''store''\<rparr>)],
          gateways = ([] :: (string \<times> string serviceEntry) list),
          accessController = HasPermission (Some (\<lambda>n. None))\<rparr>
         \<lparr>ctxPrincipal = Some \<lparr>ID = ''u'', Type = ''user'', Roles = [''service.store.db.access'']\<rparr>,
          ctxDone = False\<rparr>
         ''db'') = Inr 7
   \<and> fst (GetService
         \<lparr>services = [(''db'', \<lparr>service = (7::nat), moduleName = ''store''\<rparr>)],
          gateways = ([] :: (string \<times> string serviceEntry) list),
          accessController = HasPermission (Some (\<lambda>n. None))\<rparr>
         \<lparr>ctxPrincipal = Some \<lparr>ID = ''u'', Type = ''user'', Roles = [''other'']\<rparr>,
          ctxDone = False\<rparr>
         ''db'')
      = Inl (NotAuthorized ''u'' ''user'' ''db'' ''service.store.db.access'')
   \<and> fst (GetService
         \<lparr>services = [(''db'', \<lparr>service = (7::nat), moduleName = ''store''\<rparr>)],
          gateways = ([] :: (string \<times> string serviceEntry) list),
          accessController = HasPermission (Some (\<lambda>n. None))\<rparr>
         \<lparr>ctxPrincipal = None, ctxDone = False\<rparr>
         ''db'') = Inl (NoPrincipalInContext ''db'')
   \<and> fst (GetService
         \<lparr>services = [(''db'', \<lparr>service = (7::nat), moduleName = ''store''\<rparr>)],
          gateways = ([] :: (string \<times> string serviceEntry) list),
          accessController = HasPermission (Some (\<lambda>n. None))\<rparr>
         \<lparr>ctxPrincipal = None, ctxDone = False\<rparr>
         ''cache'') = Inl (ServiceNotFound ''cache'')"
proof -
  let ?r = "\<lparr>services = [(''db'', \<lparr>service = (7::nat), moduleName = ''store''\<rparr>)],
          gateways = ([] :: (string \<times> string serviceEntry) list),
          accessController = HasPermission (Some (\<lambda>n. None))\<rparr>"
  let ?ok = "\<lparr>ctxPrincipal = Some \<lparr>ID = ''u'', Type = ''user'', Roles = [''service.store.db.access'']\<rparr>,
          ctxDone = False\<rparr>"
  let ?no = "\<lparr>ctxPrincipal = Some \<lparr>ID = ''u'', Type = ''user'', Roles = [''other'']\<rparr>,
          ctxDone = False\<rparr>"
  let ?anon = "\<lparr>ctxPrincipal = None, ctxDone = False\<rparr>"
  have a: "fst (GetService ?r ?ok ''db'') = Inr 7"
    using GetService_authorized_lookup [of ?r ?ok "''db''" 7]
    by (simp add: PrincipalFromContext_def servicePermission_def HasPermission_def)
  have b: "fst (GetService ?r ?no ''db'')
           = Inl (NotAuthorized ''u'' ''user'' ''db'' ''service.store.db.access'')"
    using GetService_authorized_lookup [of ?r ?no "''db''" 7]
    by (simp add: PrincipalFromContext_def servicePermission_def HasPermission_def
        wildcardGrants_def)
  have c: "fst (GetService ?r ?anon ''db'') = Inl (NoPrincipalInContext ''db'')"
    using GetService_authorized_lookup [of ?r ?anon "''db''" 7]
    by (simp add: PrincipalFromContext_def)
  have d: "fst (GetService ?r ?anon ''cache'') = Inl (ServiceNotFound ''cache'')"
    using GetService_authorized_lookup [of ?r ?anon "''cache''" 7]
    by simp
  from a b c d show ?thesis by blast
qed

section \<open>Properties of the event bus\<close>

lemma closeAll_ok:
  "distinct chs \<Longrightarrow> (\<forall>ch \<in> set chs. ch < length cs \<and> \<not> chanClosed (cs ! ch)) \<Longrightarrow>
   \<exists>cs'. closeAll chs cs = Some cs' \<and> length cs' = length cs
     \<and> (\<forall>i < length cs. chanClosed (cs' ! i) = (chanClosed (cs ! i) \<or> i \<in> set chs))"
proof (induction chs arbitrary: cs)
  case Nil
  then show ?case by simp
next
  case (Cons ch rest)
  let ?cs1 = "cs[ch := (cs ! ch)\<lparr>chanClosed := True\<rparr>]"
  from Cons.prems have c1: "closeChan ch cs = Some ?cs1" by (simp add: closeChan_def)
  have "\<forall>x \<in> set rest. x < length ?cs1 \<and> \<not> chanClosed (?cs1 ! x)"
    using Cons.prems by (auto simp: nth_list_update)
  with Cons.IH [of ?cs1] Cons.prems obtain cs' where
    r: "closeAll rest ?cs1 = Some cs'" "length cs' = length cs"
       "\<forall>i < length cs. chanClosed (cs' ! i) = (chanClosed (?cs1 ! i) \<or> i \<in> set rest)"
    by auto
  show ?case using c1 r Cons.prems by (auto simp: nth_list_update)
qed

lemma deliver_ok:
  "(\<forall>ch \<in> set chs. ch < length cs \<and> \<not> chanClosed (cs ! ch)) \<Longrightarrow>
   \<exists>cs'. deliver d pick e chs cs = Some cs' \<and> length cs' = length cs
     \<and> (\<forall>i < length cs. chanClosed (cs' ! i) = chanClosed (cs ! i))"
proof (induction chs arbitrary: cs)
  case Nil
  then show ?case by simp
next
  case (Cons ch rest)
  let ?cs1 = "cs[ch := (cs ! ch)\<lparr>buf := buf (cs ! ch) @ [e]\<rparr>]"
  have p1: "\<forall>x \<in> set rest. x < length ?cs1 \<and> \<not> chanClosed (?cs1 ! x)"
    using Cons.prems by (auto simp: nth_list_update)
  have p0: "\<forall>x \<in> set rest. x < length cs \<and> \<not> chanClosed (cs ! x)"
    using Cons.prems by auto
  from Cons.IH [OF p1] obtain cs1' where
    r1: "deliver d pick e rest ?cs1 = Some cs1'" "length cs1' = length cs"
        "\<forall>i < length cs. chanClosed (cs1' ! i) = chanClosed (?cs1 ! i)" by auto
  from Cons.IH [OF p0] obtain cs0' where
    r0: "deliver d pick e rest cs = Some cs0'" "length cs0' = length cs"
        "\<forall>i < length cs. chanClosed (cs0' ! i) = chanClosed (cs ! i)" by auto
  have open_ch: "ch < length cs" "\<not> chanClosed (cs ! ch)" using Cons.prems by auto
  show ?case using r1 r0 open_ch by (auto simp: Let_def nth_list_update)
qed

lemma subd_set:
  "distinct (map fst al) \<Longrightarrow>
   x \<in> set (concat (map snd al)) \<longleftrightarrow> (\<exists>t subs. map_of al t = Some subs \<and> x \<in> set subs)"
proof (induction al)
  case Nil
  then show ?case by simp
next
  case (Cons a al)
  obtain k v where a: "a = (k, v)" by (cases a)
  from Cons.prems a have k: "k \<notin> fst ` set al" and d: "distinct (map fst al)" by auto
  from k have none: "map_of al k = None" by (simp add: map_of_eq_None_iff)
  have m: "\<And>t subs. map_of (a # al) t = Some subs \<longleftrightarrow>
              (t = k \<and> subs = v) \<or> (t \<noteq> k \<and> map_of al t = Some subs)"
    using a none by auto
  have "x \<in> set (concat (map snd (a # al))) \<longleftrightarrow> x \<in> set v \<or> x \<in> set (concat (map snd al))"
    using a by simp
  also have "\<dots> \<longleftrightarrow> x \<in> set v \<or> (\<exists>t subs. map_of al t = Some subs \<and> x \<in> set subs)"
    using Cons.IH [OF d] by simp
  also have "\<dots> \<longleftrightarrow> (\<exists>t subs. map_of (a # al) t = Some subs \<and> x \<in> set subs)"
  proof -
    have ne: "\<And>t subs. map_of al t = Some subs \<Longrightarrow> t \<noteq> k" using none by auto
    show ?thesis unfolding m using ne by blast
  qed
  finally show ?case .
qed

lemma subd_distinct:
  "distinct (map fst al) \<Longrightarrow>
   (\<forall>t subs. map_of al t = Some subs \<longrightarrow> distinct subs) \<Longrightarrow>
   (\<forall>t t' s s'. map_of al t = Some s \<and> map_of al t' = Some s' \<and> t \<noteq> t' \<longrightarrow> set s \<inter> set s' = {}) \<Longrightarrow>
   distinct (concat (map snd al))"
proof (induction al)
  case Nil
  then show ?case by simp
next
  case (Cons a al)
  obtain k v where a: "a = (k, v)" by (cases a)
  from Cons.prems(1) a have k: "k \<notin> fst ` set al" and d: "distinct (map fst al)" by auto
  from k have none: "map_of al k = None" by (simp add: map_of_eq_None_iff)
  have sub: "\<And>t s. map_of al t = Some s \<Longrightarrow> map_of (a # al) t = Some s \<and> t \<noteq> k"
    using a none by auto
  have hd: "map_of (a # al) k = Some v" using a by simp
  have 1: "\<forall>t subs. map_of al t = Some subs \<longrightarrow> distinct subs"
    using Cons.prems(2) sub by blast
  have 2: "\<forall>t t' s s'. map_of al t = Some s \<and> map_of al t' = Some s' \<and> t \<noteq> t' \<longrightarrow> set s \<inter> set s' = {}"
    using Cons.prems(3) sub by blast
  have ih: "distinct (concat (map snd al))" using Cons.IH [OF d 1 2] .
  have dv: "distinct v" using Cons.prems(2) hd by blast
  have disj: "set v \<inter> set (concat (map snd al)) = {}"
  proof -
    { fix x assume xv: "x \<in> set v" and xc: "x \<in> set (concat (map snd al))"
      from xc subd_set [OF d] obtain t s where ts: "map_of al t = Some s" "x \<in> set s" by blast
      from sub [OF ts(1)] have "map_of (a # al) t = Some s" "t \<noteq> k" by auto
      with Cons.prems(3) hd have "set s \<inter> set v = {}" by blast
      with xv ts(2) have False by auto }
    then show ?thesis by auto
  qed
  show ?case using a ih dv disj by simp
qed



lemma subsOk_fresh: "subsOk m cs \<Longrightarrow> m t = Some s \<Longrightarrow> length cs \<notin> set s"
  unfolding subsOk_def by (metis less_irrefl)

lemma subsOk_closed_chan:
  "subsOk m cs \<Longrightarrow> subsOk m (cs @ [\<lparr>buf = [], chanClosed = True\<rparr>])"
  unfolding subsOk_def
  by (auto simp: nth_append less_Suc_eq)

lemma subsOk_subscribe_new:
  assumes "subsOk m cs" "m t = None"
  shows "subsOk (m(t \<mapsto> [length cs])) (cs @ [\<lparr>buf = [], chanClosed = False\<rparr>])"
proof -
  note fr = subsOk_fresh [OF assms(1)]
  have 1: "\<forall>t' subs. (m(t \<mapsto> [length cs])) t' = Some subs \<longrightarrow>
         distinct subs \<and> (\<forall>ch \<in> set subs. ch < length (cs @ [\<lparr>buf = [], chanClosed = False\<rparr>])
            \<and> \<not> chanClosed ((cs @ [\<lparr>buf = [], chanClosed = False\<rparr>]) ! ch))"
    using assms unfolding subsOk_def by (auto simp: nth_append less_Suc_eq split: if_splits)
  have 2: "\<forall>t1 t2 s s'. (m(t \<mapsto> [length cs])) t1 = Some s \<and> (m(t \<mapsto> [length cs])) t2 = Some s' \<and> t1 \<noteq> t2
         \<longrightarrow> set s \<inter> set s' = {}"
    using assms fr unfolding subsOk_def by (auto split: if_splits)
  have 3: "\<forall>ch < length (cs @ [\<lparr>buf = [], chanClosed = False\<rparr>]).
         \<not> chanClosed ((cs @ [\<lparr>buf = [], chanClosed = False\<rparr>]) ! ch) \<longrightarrow>
         (\<exists>t' subs. (m(t \<mapsto> [length cs])) t' = Some subs \<and> ch \<in> set subs)"
  proof (intro allI impI)
    fix ch assume a: "ch < length (cs @ [\<lparr>buf = [], chanClosed = False\<rparr>])"
      and o: "\<not> chanClosed ((cs @ [\<lparr>buf = [], chanClosed = False\<rparr>]) ! ch)"
    show "\<exists>t' subs. (m(t \<mapsto> [length cs])) t' = Some subs \<and> ch \<in> set subs"
    proof (cases "ch = length cs")
      case True
      then show ?thesis by (intro exI [of _ t] exI [of _ "[length cs]"]) simp
    next
      case False
      with a o have "ch < length cs" "\<not> chanClosed (cs ! ch)" by (auto simp: nth_append)
      with assms(1) obtain t' subs where ts: "m t' = Some subs" "ch \<in> set subs"
        unfolding subsOk_def by blast
      with assms(2) have "t' \<noteq> t" by auto
      with ts show ?thesis by (intro exI [of _ t'] exI [of _ subs]) simp
    qed
  qed
  show ?thesis unfolding subsOk_def using 1 2 3 by blast
qed

lemma subsOk_subscribe_old:
  assumes "subsOk m cs" "m t = Some old"
  shows "subsOk (m(t \<mapsto> old @ [length cs])) (cs @ [\<lparr>buf = [], chanClosed = False\<rparr>])"
proof -
  note fr = subsOk_fresh [OF assms(1)]
  let ?m = "m(t \<mapsto> old @ [length cs])"
  let ?cs = "cs @ [\<lparr>buf = [], chanClosed = False\<rparr>]"
  have 1: "\<forall>t' subs. ?m t' = Some subs \<longrightarrow>
         distinct subs \<and> (\<forall>ch \<in> set subs. ch < length ?cs \<and> \<not> chanClosed (?cs ! ch))"
    using assms fr [OF assms(2)] unfolding subsOk_def
    by (auto simp: nth_append less_Suc_eq split: if_splits)
  have 2: "\<forall>t1 t2 s s'. ?m t1 = Some s \<and> ?m t2 = Some s' \<and> t1 \<noteq> t2 \<longrightarrow> set s \<inter> set s' = {}"
  proof (intro allI impI)
    fix t1 t2 s s' assume a: "?m t1 = Some s \<and> ?m t2 = Some s' \<and> t1 \<noteq> t2"
    show "set s \<inter> set s' = {}"
    proof (cases "t1 = t")
      case True
      with a have s: "s = old @ [length cs]" and s': "m t2 = Some s'" "t2 \<noteq> t" by auto
      from assms s' have "set old \<inter> set s' = {}" unfolding subsOk_def by blast
      moreover have "length cs \<notin> set s'" using fr s'(1) by blast
      ultimately show ?thesis using s by auto
    next
      case False
      with a have s: "m t1 = Some s" by auto
      show ?thesis
      proof (cases "t2 = t")
        case True
        with a have s': "s' = old @ [length cs]" by auto
        from assms s False have "set s \<inter> set old = {}" unfolding subsOk_def by blast
        moreover have "length cs \<notin> set s" using fr s by blast
        ultimately show ?thesis using s' by auto
      next
        case f2: False
        with a have "m t2 = Some s'" by auto
        with s a assms(1) show ?thesis unfolding subsOk_def by blast
      qed
    qed
  qed
  have 3: "\<forall>ch < length ?cs. \<not> chanClosed (?cs ! ch) \<longrightarrow>
         (\<exists>t' subs. ?m t' = Some subs \<and> ch \<in> set subs)"
  proof (intro allI impI)
    fix ch assume a: "ch < length ?cs" and o: "\<not> chanClosed (?cs ! ch)"
    show "\<exists>t' subs. ?m t' = Some subs \<and> ch \<in> set subs"
    proof (cases "ch = length cs")
      case True
      then show ?thesis by (intro exI [of _ t] exI [of _ "old @ [length cs]"]) simp
    next
      case False
      with a o have "ch < length cs" "\<not> chanClosed (cs ! ch)" by (auto simp: nth_append)
      with assms(1) obtain t' subs where ts: "m t' = Some subs" "ch \<in> set subs"
        unfolding subsOk_def by blast
      show ?thesis
      proof (cases "t' = t")
        case True
        with ts assms(2) have "ch \<in> set (old @ [length cs])" by auto
        then show ?thesis by (intro exI [of _ t] exI [of _ "old @ [length cs]"]) simp
      next
        case False
        with ts show ?thesis by (intro exI [of _ t'] exI [of _ subs]) simp
      qed
    qed
  qed
  show ?thesis unfolding subsOk_def using 1 2 3 by blast
qed

lemma subsOk_flags:
  assumes "subsOk m cs" "length cs' = length cs"
    "\<forall>i < length cs. chanClosed (cs' ! i) = chanClosed (cs ! i)"
  shows "subsOk m cs'"
  using assms unfolding subsOk_def by auto


lemma subsOk_cancel:
  assumes ok: "subsOk m cs" and t: "m t = Some subs" and ch: "ch \<in> set subs"
    and m': "m' = (if removeAll ch subs = [] then m(t := None) else m(t \<mapsto> removeAll ch subs))"
  shows "subsOk m' (cs[ch := (cs ! ch)\<lparr>chanClosed := True\<rparr>])"
proof -
  let ?cs = "cs[ch := (cs ! ch)\<lparr>chanClosed := True\<rparr>]"
  have sub: "\<And>t' s'. m' t' = Some s' \<Longrightarrow> \<exists>s. m t' = Some s \<and> set s' \<subseteq> set s \<and> ch \<notin> set s'
                \<and> (distinct s \<longrightarrow> distinct s')"
  proof -
    fix t' s' assume a: "m' t' = Some s'"
    show "\<exists>s. m t' = Some s \<and> set s' \<subseteq> set s \<and> ch \<notin> set s' \<and> (distinct s \<longrightarrow> distinct s')"
    proof (cases "t' = t")
      case True
      with a m' have "s' = removeAll ch subs" by (auto split: if_splits)
      with True t show ?thesis by (auto simp: distinct_removeAll)
    next
      case False
      with a m' have mt: "m t' = Some s'" by (auto split: if_splits)
      with ok t False have "set s' \<inter> set subs = {}" unfolding subsOk_def by blast
      with ch have "ch \<notin> set s'" by auto
      with mt show ?thesis by auto
    qed
  qed
  have 1: "\<forall>t' s'. m' t' = Some s' \<longrightarrow>
         distinct s' \<and> (\<forall>c \<in> set s'. c < length ?cs \<and> \<not> chanClosed (?cs ! c))"
  proof (intro allI impI)
    fix t' s' assume a: "m' t' = Some s'"
    from sub [OF a] obtain s where s: "m t' = Some s" "set s' \<subseteq> set s" "ch \<notin> set s'"
      "distinct s \<longrightarrow> distinct s'" by blast
    from ok s(1) have d: "distinct s" and o: "\<forall>c \<in> set s. c < length cs \<and> \<not> chanClosed (cs ! c)"
      unfolding subsOk_def by blast+
    from ok t ch have chl: "ch < length cs" unfolding subsOk_def by blast
    have "\<And>c. c \<in> set s' \<Longrightarrow> c < length ?cs \<and> \<not> chanClosed (?cs ! c)"
    proof -
      fix c assume c: "c \<in> set s'"
      with s have "c \<noteq> ch" "c \<in> set s" by auto
      with o chl show "c < length ?cs \<and> \<not> chanClosed (?cs ! c)" by (simp add: nth_list_update)
    qed
    with s d show "distinct s' \<and> (\<forall>c \<in> set s'. c < length ?cs \<and> \<not> chanClosed (?cs ! c))"
      by blast
  qed
  have 2: "\<forall>t1 t2 s1 s2. m' t1 = Some s1 \<and> m' t2 = Some s2 \<and> t1 \<noteq> t2 \<longrightarrow> set s1 \<inter> set s2 = {}"
  proof (intro allI impI)
    fix t1 t2 s1 s2 assume a: "m' t1 = Some s1 \<and> m' t2 = Some s2 \<and> t1 \<noteq> t2"
    from a sub [of t1 s1] obtain r1 where r1: "m t1 = Some r1" "set s1 \<subseteq> set r1" by blast
    from a sub [of t2 s2] obtain r2 where r2: "m t2 = Some r2" "set s2 \<subseteq> set r2" by blast
    from ok r1(1) r2(1) a have "set r1 \<inter> set r2 = {}" unfolding subsOk_def by blast
    with r1(2) r2(2) show "set s1 \<inter> set s2 = {}" by auto
  qed
  have 3: "\<forall>c < length ?cs. \<not> chanClosed (?cs ! c) \<longrightarrow> (\<exists>t' s'. m' t' = Some s' \<and> c \<in> set s')"
  proof (intro allI impI)
    fix c assume a: "c < length ?cs" and o: "\<not> chanClosed (?cs ! c)"
    from ok t ch have chl: "ch < length cs" unfolding subsOk_def by blast
    from a o chl have cne: "c \<noteq> ch" and c: "c < length cs" "\<not> chanClosed (cs ! c)"
      by (auto simp: nth_list_update split: if_splits)
    with ok obtain t' s where ts: "m t' = Some s" "c \<in> set s" unfolding subsOk_def by blast
    show "\<exists>t' s'. m' t' = Some s' \<and> c \<in> set s'"
    proof (cases "t' = t")
      case True
      with ts t have "c \<in> set subs" by auto
      with cne have in': "c \<in> set (removeAll ch subs)" by auto
      have "removeAll ch subs \<noteq> []"
      proof
        assume e: "removeAll ch subs = []"
        from in' show False unfolding e by simp
      qed
      with m' have "m' t = Some (removeAll ch subs)" by simp
      with in' show ?thesis by blast
    next
      case False
      with m' ts have "m' t' = Some s" by auto
      with ts show ?thesis by blast
    qed
  qed
  show ?thesis unfolding subsOk_def using 1 2 3 by blast
qed

lemma New_inv: "busInv New"
  by (simp add: busInv_def New_def subsOk_def)

lemma Subscribe_inv:
  assumes "busInv b"
  shows "busInv (snd (Subscribe b t))"
proof (cases "closed b")
  case True
  from assms have ok: "subsOk (map_of (topics b)) (chans b)"
    by (simp add: busInv_def)
  have eq: "snd (Subscribe b t) = b\<lparr>chans := chans b @ [\<lparr>buf = [], chanClosed = True\<rparr>]\<rparr>"
    using True by (simp add: Subscribe_def Let_def)
  from assms have d: "distinct (map fst (topics b))" and cl: "closed b \<longrightarrow> topics b = []"
    by (simp_all add: busInv_def)
  have k: "subsOk (map_of (topics b)) (chans b @ [\<lparr>buf = [], chanClosed = True\<rparr>])"
    by (rule subsOk_closed_chan [OF ok])
  show ?thesis unfolding eq busInv_def by (simp add: d k cl)
next
  case False
  from assms have d: "distinct (map fst (topics b))" and ok: "subsOk (map_of (topics b)) (chans b)"
    by (simp_all add: busInv_def)
  show ?thesis
  proof (cases "map_of (topics b) t")
    case None
    have mo: "map_of (topics b @ [(t, [length (chans b)])]) = (map_of (topics b))(t \<mapsto> [length (chans b)])"
      using None by (auto simp: map_add_def fun_eq_iff split: option.splits)
    from None have "t \<notin> fst ` set (topics b)" by (simp add: map_of_eq_None_iff)
    with d have d': "distinct (map fst (topics b @ [(t, [length (chans b)])]))" by auto
    have eq: "snd (Subscribe b t) = b\<lparr>chans := chans b @ [\<lparr>buf = [], chanClosed = False\<rparr>],
                 topics := topics b @ [(t, [length (chans b)])]\<rparr>"
      using False None by (simp add: Subscribe_def Let_def)
    show ?thesis unfolding eq busInv_def
      using d' subsOk_subscribe_new [OF ok None] False by (simp add: mo del: map_of_append)
  next
    case (Some subs)
    have eq: "snd (Subscribe b t) = b\<lparr>chans := chans b @ [\<lparr>buf = [], chanClosed = False\<rparr>],
                 topics := AList.update t (subs @ [length (chans b)]) (topics b)\<rparr>"
      using False Some by (simp add: Subscribe_def Let_def)
    show ?thesis unfolding eq busInv_def
      using d subsOk_subscribe_old [OF ok Some] False
      by (simp add: update_conv' distinct_update)
  qed
qed

lemma cancel_inv:
  assumes "busInv b"
  shows "\<exists>b'. cancel c b = Some b' \<and> busInv b'"
proof (cases c)
  case NoopCancel
  with assms show ?thesis by simp
next
  case (CancelSub t ch)
  from assms have d: "distinct (map fst (topics b))" and ok: "subsOk (map_of (topics b)) (chans b)"
    and cl: "closed b \<longrightarrow> topics b = []"
    by (simp_all add: busInv_def)
  show ?thesis
  proof (cases "map_of (topics b) t")
    case None
    with CancelSub assms show ?thesis by simp
  next
    case (Some subs)
    show ?thesis
    proof (cases "ch \<in> set subs")
      case False
      with Some CancelSub assms show ?thesis by simp
    next
      case True
      from ok Some True have o: "ch < length (chans b)" "\<not> chanClosed (chans b ! ch)"
        unfolding subsOk_def by blast+
      let ?cs = "(chans b)[ch := (chans b ! ch)\<lparr>chanClosed := True\<rparr>]"
      let ?tp = "if length (removeAll ch subs) = 0 then AList.delete t (topics b)
                 else AList.update t (removeAll ch subs) (topics b)"
      have cc: "closeChan ch (chans b) = Some ?cs" using o by (simp add: closeChan_def)
      have res: "cancel c b = Some (b\<lparr>chans := ?cs, topics := ?tp\<rparr>)"
        using CancelSub Some True cc by (simp add: Let_def)
      have mo: "map_of ?tp = (if removeAll ch subs = [] then (map_of (topics b))(t := None)
                     else (map_of (topics b))(t \<mapsto> removeAll ch subs))"
        by (simp add: delete_conv' update_conv')
      have d': "distinct (map fst ?tp)" using d by (simp add: distinct_delete distinct_update)
      have ok': "subsOk (map_of ?tp) ?cs" using subsOk_cancel [OF ok Some True mo] .
      from Some have "topics b \<noteq> []" by auto
      with cl have "\<not> closed b" by auto
      with res d' ok' show ?thesis by (simp add: busInv_def)
    qed
  qed
qed

lemma Publish_inv:
  assumes "busInv b"
  shows "\<exists>b'. Publish ctx pick b t e = Some b' \<and> busInv b'"
proof -
  let ?chs = "case map_of (topics b) t of None \<Rightarrow> [] | Some subs \<Rightarrow> subs"
  from assms have ok: "subsOk (map_of (topics b)) (chans b)" by (simp add: busInv_def)
  have "\<forall>ch \<in> set ?chs. ch < length (chans b) \<and> \<not> chanClosed (chans b ! ch)"
  proof (cases "map_of (topics b) t")
    case None
    then show ?thesis by simp
  next
    case (Some subs)
    with ok show ?thesis unfolding subsOk_def by auto
  qed
  from deliver_ok [OF this, of "ctxDone ctx" pick e] obtain cs' where
    r: "deliver (ctxDone ctx) pick e ?chs (chans b) = Some cs'" "length cs' = length (chans b)"
       "\<forall>i < length (chans b). chanClosed (cs' ! i) = chanClosed (chans b ! i)" by blast
  have "subsOk (map_of (topics b)) cs'" using subsOk_flags [OF ok r(2) r(3)] .
  with assms r(1) show ?thesis by (simp add: Publish_def busInv_def)
qed

lemma receive_inv:
  assumes "busInv b"
  shows "busInv (receive ch b)"
proof -
  from assms have ok: "subsOk (map_of (topics b)) (chans b)" by (simp add: busInv_def)
  let ?cs = "(chans b)[ch := (chans b ! ch)\<lparr>buf := tl (buf (chans b ! ch))\<rparr>]"
  show ?thesis
  proof (cases "ch < length (chans b)")
    case True
    have "subsOk (map_of (topics b)) ?cs"
      using True by (intro subsOk_flags [OF ok]) (auto simp: nth_list_update)
    with assms True show ?thesis by (simp add: receive_def busInv_def)
  next
    case False
    with assms show ?thesis by (simp add: receive_def)
  qed
qed

lemma Close_dead:
  assumes "busInv b"
  shows "\<exists>b'. Close b = Some b' \<and> busDead b' \<and> length (chans b') = length (chans b)"
proof -
  from assms have d: "distinct (map fst (topics b))" and ok: "subsOk (map_of (topics b)) (chans b)"
    and cl: "closed b \<longrightarrow> topics b = []"
    by (simp_all add: busInv_def)
  let ?all = "concat (map snd (topics b))"
  have mem: "\<And>x. x \<in> set ?all \<longleftrightarrow> (\<exists>t subs. map_of (topics b) t = Some subs \<and> x \<in> set subs)"
    using subd_set [OF d] .
  have every: "\<forall>i < length (chans b). \<not> chanClosed (chans b ! i) \<longrightarrow> i \<in> set ?all"
    using ok mem unfolding subsOk_def by blast
  show ?thesis
  proof (cases "closed b")
    case True
    with cl every have "\<forall>i < length (chans b). chanClosed (chans b ! i)" by auto
    then have "list_all chanClosed (chans b)" by (simp add: list_all_length)
    with True cl show ?thesis by (simp add: Close_def busDead_def)
  next
    case False
    have dist: "distinct ?all"
      using ok unfolding subsOk_def by (intro subd_distinct [OF d]) blast+
    have rng: "\<forall>ch \<in> set ?all. ch < length (chans b) \<and> \<not> chanClosed (chans b ! ch)"
      using ok mem unfolding subsOk_def by blast
    from closeAll_ok [OF dist rng] obtain cs' where
      r: "closeAll ?all (chans b) = Some cs'" "length cs' = length (chans b)"
         "\<forall>i < length (chans b). chanClosed (cs' ! i) = (chanClosed (chans b ! i) \<or> i \<in> set ?all)"
      by blast
    from r(2) r(3) every have "list_all chanClosed cs'" by (auto simp: list_all_length)
    with False r(1) r(2) show ?thesis by (simp add: Close_def busDead_def)
  qed
qed

lemma dead_inv: "busDead b \<Longrightarrow> busInv b"
  by (auto simp: busDead_def busInv_def subsOk_def list_all_length)

lemma busStep_inv:
  assumes "busInv b"
  shows "\<exists>b'. busStep op b = Some b' \<and> busInv b'"
proof (cases op)
  case (OpSubscribe t)
  with Subscribe_inv [OF assms] show ?thesis by simp
next
  case (OpCancel c)
  with cancel_inv [OF assms] show ?thesis by simp
next
  case (OpPublish ctx pick t e)
  with Publish_inv [OF assms] show ?thesis by simp
next
  case OpClose
  with Close_dead [OF assms] dead_inv show ?thesis by auto
next
  case (OpReceive ch)
  with receive_inv [OF assms] show ?thesis by simp
qed

lemma busRun_inv: "busInv b \<Longrightarrow> \<exists>b'. busRun ops b = Some b' \<and> busInv b'"
proof (induction ops arbitrary: b)
  case Nil
  then show ?case by simp
next
  case (Cons op ops)
  from busStep_inv [OF Cons.prems] obtain b1 where "busStep op b = Some b1" "busInv b1" by blast
  with Cons.IH [of b1] show ?case by simp
qed

lemma busStep_dead:
  assumes "busDead b"
  shows "\<exists>b'. busStep op b = Some b' \<and> busDead b'"
proof (cases op)
  case (OpSubscribe t)
  with assms show ?thesis by (simp add: busDead_def Subscribe_def Let_def)
next
  case (OpCancel c)
  with assms show ?thesis by (cases c) (simp_all add: busDead_def)
next
  case (OpPublish ctx pick t e)
  with assms show ?thesis by (simp add: busDead_def Publish_def)
next
  case OpClose
  with assms show ?thesis by (simp add: busDead_def Close_def)
next
  case (OpReceive ch)
  with assms show ?thesis
    by (auto simp: busDead_def receive_def list_all_length nth_list_update)
qed

lemma busRun_dead: "busDead b \<Longrightarrow> \<exists>b'. busRun ops b = Some b' \<and> busDead b'"
proof (induction ops arbitrary: b)
  case Nil
  then show ?case by simp
next
  case (Cons op ops)
  from busStep_dead [OF Cons.prems] obtain b1 where "busStep op b = Some b1" "busDead b1" by blast
  with Cons.IH [of b1] show ?case by simp
qed

lemma dead_ops:
  assumes "busDead b"
  shows "Close b = Some b" and "Publish ctx pick b t e = Some b"
    and "fst (Subscribe b t) = (length (chans b), NoopCancel, None)"
    and "chans (snd (Subscribe b t)) ! length (chans b) = \<lparr>buf = [], chanClosed = True\<rparr>"
    and "topics (snd (Subscribe b t)) = []"
  using assms by (simp_all add: busDead_def Close_def Publish_def Subscribe_def Let_def)

text \<open>
  C9. Take any history \<open>ops\<close> of a fresh bus; it runs without panic to some bus \<open>b\<close>,
  whose sinks handed out so far are the channels below \<open>length (chans b)\<close>. \<open>Close\<close>
  then succeeds, keeps the same channels, leaves every one of them closed and no topic
  entry; a second \<open>Close\<close> returns the same bus. After any later history \<open>later\<close>, the
  bus is still closed and without topics, \<open>Subscribe\<close> returns a fresh channel that is
  already closed together with the empty cancel function and registers nothing,
  \<open>Publish\<close> returns the bus unchanged, and so does \<open>Close\<close>.
\<close>

theorem bus_close_final:
  "\<exists>b b' b''. busRun ops New = Some b \<and> Close b = Some b'
      \<and> length (chans b') = length (chans b) \<and> list_all chanClosed (chans b') \<and> topics b' = []
      \<and> Close b' = Some b'
      \<and> busRun later b' = Some b''
      \<and> closed b'' \<and> topics b'' = []
      \<and> fst (Subscribe b'' topic) = (length (chans b''), NoopCancel, None)
      \<and> chanClosed (chans (snd (Subscribe b'' topic)) ! length (chans b''))
      \<and> topics (snd (Subscribe b'' topic)) = []
      \<and> Publish ctx pick b'' topic payload = Some b''
      \<and> Close b'' = Some b''"
proof -
  from busRun_inv [OF New_inv, of ops] obtain b where b: "busRun ops New = Some b" "busInv b"
    by blast
  from Close_dead [OF b(2)] obtain b' where b': "Close b = Some b'" "busDead b'"
    "length (chans b') = length (chans b)" by blast
  from busRun_dead [OF b'(2), of later] obtain b'' where b'': "busRun later b' = Some b''"
    "busDead b''" by blast
  show ?thesis
    using b(1) b' b'' dead_ops [OF b'(2)] dead_ops [OF b''(2)]
    by (intro exI [of _ b] exI [of _ b'] exI [of _ b'']) (simp add: busDead_def)
qed

section \<open>Properties of the kernel operations\<close>

lemmas fixture_defs = kernelWith_def New_kernel_def NewDefaultRegistry_def
  NewDefaultAccessController_def New_def exampleConfig_def recModule_def recGateway_def
  returns_def exampleSemver_def systemCtx_def ContextWithPrincipal_def Background_def
  PrincipalFromContext_def

lemmas eval_defs = enabledModules_def rangeOver_def List.map_filter_def initInDegree_def
  seedQueue_def deg_def Let_def getModuleStartupOrder_def getModuleShutdownOrder_def
  safelyExecute_def invoke_def callIgnoringError_def gatewaysInOrder_def
  moduleOperationSeconds_def gatewayOperationSeconds_def Publish_def
  GatewayStartedEventType_def second_def moduleOperationTimeout_def

text \<open>
  C5. \<open>Start\<close> on a running kernel returns \<open>errAlreadyRunning\<close> and \<open>Stop\<close> on a kernel
  that is not running returns \<open>errNotRunning\<close>; in both cases the kernel state that comes
  back is the one that went in, field for field (module map, gateway map, enabled-state
  map, running flag, registry, bus, and no lifecycle call made).
\<close>

theorem Start_running_Stop_not_running_unchanged:
  "(k_running k \<longrightarrow> Start sv ch ctx k = (Some errAlreadyRunning, k))
   \<and> (\<not> k_running k \<longrightarrow> Stop sv ch ctx k = (Some errNotRunning, k))"
  by (simp add: Start_def Stop_def)

theorem Start_running_Stop_not_running_unchanged_witness:
  "k_running (chainKernel\<lparr>k_running := True\<rparr>)
   \<and> Start exampleSemver exampleChoices Background (chainKernel\<lparr>k_running := True\<rparr>)
       = (Some errAlreadyRunning, chainKernel\<lparr>k_running := True\<rparr>)
   \<and> \<not> k_running chainKernel
   \<and> Stop exampleSemver exampleChoices Background chainKernel
       = (Some errNotRunning, chainKernel)"
proof -
  have r: "k_running (chainKernel\<lparr>k_running := True\<rparr>)" by simp
  have n: "\<not> k_running chainKernel" by (simp add: chainKernel_def fixture_defs Let_def)
  from Start_running_Stop_not_running_unchanged
         [of "chainKernel\<lparr>k_running := True\<rparr>" exampleSemver exampleChoices Background] r
  have a: "Start exampleSemver exampleChoices Background (chainKernel\<lparr>k_running := True\<rparr>)
           = (Some errAlreadyRunning, chainKernel\<lparr>k_running := True\<rparr>)" by blast
  from Start_running_Stop_not_running_unchanged
         [of chainKernel exampleSemver exampleChoices Background] n
  have b: "Stop exampleSemver exampleChoices Background chainKernel
           = (Some errNotRunning, chainKernel)" by blast
  from r n a b show ?thesis by blast
qed

text \<open>
  C2 (evaluation at the diverging input). The kernel holds the enabled modules \<open>A\<close>,
  whose \<open>OnReady\<close> returns an error, and \<open>B\<close> (depending on \<open>A\<close>), and the gateway
  \<open>devnull\<close>. \<open>Start\<close> stops \<open>A\<close> under a context bounded by its shutdown timeout and
  then returns the wrapped \<open>OnReady\<close> error: \<open>Start\<close> fails, \<open>OnReady\<close> of \<open>B\<close> is never
  called and the gateway is never started, as the trace of lifecycle calls shows.
\<close>

theorem Start_returns_OnReady_error:
  "fst (Start exampleSemver twoChoices Background onReadyFailKernel)
     = Some (Wrap ''module A OnReady'' (ErrText ''not ready''))
   \<and> k_calls (snd (Start exampleSemver twoChoices Background onReadyFailKernel))
     = [Call ''module'' ''A'' ''Start'' None,
        Call ''module'' ''B'' ''Start'' None,
        Call ''module'' ''A'' ''RegisterServices'' None,
        Call ''module'' ''B'' ''RegisterServices'' None,
        Call ''module'' ''A'' ''OnReady'' None,
        Call ''module'' ''A'' ''Stop'' (Some (ShutdownTimeout (recModule ''A'' ''1.0.0'' [])))]"
  by (simp add: Start_def onReadyFailKernel_def twoChoices_def fixture_defs eval_defs)

text \<open>
  C3 (evaluation at the diverging input). In the chain \<open>A\<close>, \<open>B\<close>, \<open>C\<close> the start of \<open>B\<close>
  fails. The startup order is \<open>A\<close>, \<open>B\<close>, \<open>C\<close>; \<open>A\<close> was started and \<open>C\<close> was not. The
  kernel reverts to not running and returns the wrapped error, but the rollback calls
  \<open>Stop\<close> on \<open>C\<close>, the module after \<open>B\<close>, and never on \<open>A\<close>, the module started before it.
\<close>

theorem Start_rollback_stops_modules_after_failed:
  "getModuleStartupOrder exampleSemver exampleChoices startFailKernel
     = Inr (map snd (k_modules startFailKernel))
   \<and> map fst (k_modules startFailKernel) = [''A'', ''B'', ''C'']
   \<and> fst (Start exampleSemver exampleChoices Background startFailKernel)
     = Some (Wrap ''start module B'' (ErrText ''boom''))
   \<and> \<not> k_running (snd (Start exampleSemver exampleChoices Background startFailKernel))
   \<and> k_calls (snd (Start exampleSemver exampleChoices Background startFailKernel))
     = [Call ''module'' ''A'' ''Start'' None,
        Call ''module'' ''B'' ''Start'' None,
        Call ''module'' ''C'' ''Stop'' None]"
  by (simp add: Start_def startFailKernel_def exampleChoices_def fixture_defs eval_defs)

text \<open>
  C4 (evaluation at the diverging inputs). (1) \<open>AddModule\<close> of a module whose \<open>OnLoad\<close>
  fails, into an empty kernel: the error is returned and the module is deleted from the
  module map, but its entry stays in the enabled-state map. (2) \<open>AddModule\<close> of a module
  whose \<open>Configure\<close> fails, into an empty kernel whose configuration has a slice for it:
  the error is returned and the module stays in both maps. (3) \<open>RemoveModule\<close> on a
  running kernel of a module whose \<open>Stop\<close> fails and that owns a registered service: the
  error is returned and the module is put back into both maps, but its service, which
  was registered before the call, is no longer registered.
\<close>

theorem AddModule_RemoveModule_failure_leaves_changes:
  "fst (AddModule systemCtx
          (Some ((recModule ''A'' ''1.0.0'' [])\<lparr>OnLoad := returns (Err ''no load'')\<rparr>))
          (kernelWith [] []))
     = Some (Wrap ''module A OnLoad'' (ErrText ''no load''))
   \<and> map_of (k_modules (snd (AddModule systemCtx
          (Some ((recModule ''A'' ''1.0.0'' [])\<lparr>OnLoad := returns (Err ''no load'')\<rparr>))
          (kernelWith [] [])))) ''A'' = None
   \<and> k_moduleStates (snd (AddModule systemCtx
          (Some ((recModule ''A'' ''1.0.0'' [])\<lparr>OnLoad := returns (Err ''no load'')\<rparr>))
          (kernelWith [] []))) ''A'' = Some True
   \<and> k_moduleStates (kernelWith [] [] :: nat kernel) ''A'' = None
   \<and> fst (AddModule systemCtx
          (Some ((recModule ''A'' ''1.0.0'' [])\<lparr>Configure := (\<lambda>cfg. returns (Err ''bad config''))\<rparr>))
          ((kernelWith [] [])\<lparr>k_config := configuredConfig\<rparr>))
     = Some (Wrap ''configure module A'' (ErrText ''bad config''))
   \<and> map fst (k_modules (snd (AddModule systemCtx
          (Some ((recModule ''A'' ''1.0.0'' [])\<lparr>Configure := (\<lambda>cfg. returns (Err ''bad config''))\<rparr>))
          ((kernelWith [] [])\<lparr>k_config := configuredConfig\<rparr>)))) = [''A'']
   \<and> k_moduleStates (snd (AddModule systemCtx
          (Some ((recModule ''A'' ''1.0.0'' [])\<lparr>Configure := (\<lambda>cfg. returns (Err ''bad config''))\<rparr>))
          ((kernelWith [] [])\<lparr>k_config := configuredConfig\<rparr>))) ''A'' = Some True
   \<and> fst (RemoveModule systemCtx ''A'' stopFailKernel)
     = Some (Wrap ''stop module A'' (ErrText ''busy''))
   \<and> map fst (k_modules (snd (RemoveModule systemCtx ''A'' stopFailKernel))) = [''A'']
   \<and> k_moduleStates (snd (RemoveModule systemCtx ''A'' stopFailKernel)) ''A'' = Some True
   \<and> map fst (services (k_registry stopFailKernel)) = [''AService'']
   \<and> services (k_registry (snd (RemoveModule systemCtx ''A'' stopFailKernel))) = []"
  by (simp add: AddModule_def addModuleLifecycle_def RemoveModule_def stopFailKernel_def
      configuredConfig_def UnregisterServicesByModule_def HasPermission_def wildcardGrants_def
      fixture_defs eval_defs)

section \<open>Correctness of the startup order\<close>

lemma deg_fmupd: "deg (fmupd a v d) n = (if n = a then v else deg d n)"
  by (simp add: deg_def)

lemma decrementDependents_distinct:
  "distinct ds \<Longrightarrow> decrementDependents en ds (ind, q) = (ind', q') \<Longrightarrow>
   (\<forall>n. deg ind' n = deg ind n - (if n \<in> set ds then 1 else 0))
   \<and> q' = q @ map (map_of en) (filter (\<lambda>n. deg ind n = 1) ds)"
proof (induction ds arbitrary: ind q)
  case Nil
  then show ?case by simp
next
  case (Cons a ds)
  let ?i1 = "fmupd a (deg ind a - 1) ind"
  let ?q1 = "if deg ?i1 a = 0 then q @ [map_of en a] else q"
  from Cons.prems have d: "distinct ds" and a: "a \<notin> set ds" by auto
  from Cons.prems have run: "decrementDependents en ds (?i1, ?q1) = (ind', q')"
    by (simp add: Let_def)
  from Cons.IH [OF d run] have
    ih1: "\<forall>n. deg ind' n = deg ?i1 n - (if n \<in> set ds then 1 else 0)"
    and ih2: "q' = ?q1 @ map (map_of en) (filter (\<lambda>n. deg ?i1 n = 1) ds)" by auto
  have f: "filter (\<lambda>n. deg ?i1 n = 1) ds = filter (\<lambda>n. deg ind n = 1) ds"
    using a by (intro filter_cong) (auto simp: deg_fmupd)
  have 1: "\<forall>n. deg ind' n = deg ind n - (if n \<in> set (a # ds) then 1 else 0)"
    using ih1 a by (auto simp: deg_fmupd)
  have 2: "q' = q @ map (map_of en) (filter (\<lambda>n. deg ind n = 1) (a # ds))"
    using ih2 f by (auto simp: deg_fmupd)
  from 1 2 show ?case by blast
qed

lemma inDependencyOrder_append:
  "inDependencyOrder seen (xs @ [x]) \<longleftrightarrow>
   inDependencyOrder seen xs \<and> set (depNames x) \<subseteq> seen \<union> set (map Name xs)"
  by (induction xs arbitrary: seen) auto


lemma wf_lookup:
  assumes "wellFormedModules en"
  shows "map_of en n = Some m \<longleftrightarrow> (n, m) \<in> set en"
    and "(n, m) \<in> set en \<Longrightarrow> Name m = n"
    and "(n, m) \<in> set en \<Longrightarrow> distinct (depNames m)"
    and "(n, m) \<in> set en \<Longrightarrow> (n, m') \<in> set en \<Longrightarrow> m' = m"
proof -
  from assms have d: "distinct (map fst en)" by (simp add: wellFormedModules_def)
  show "map_of en n = Some m \<longleftrightarrow> (n, m) \<in> set en" using d by simp
  show "(n, m) \<in> set en \<Longrightarrow> Name m = n"
    using assms by (auto simp: wellFormedModules_def list_all_iff)
  show "(n, m) \<in> set en \<Longrightarrow> distinct (depNames m)"
    using assms by (auto simp: wellFormedModules_def list_all_iff)
  show "(n, m) \<in> set en \<Longrightarrow> (n, m') \<in> set en \<Longrightarrow> m' = m"
    using d by (meson eq_key_imp_eq_value)
qed

lemma kahn_step:
  assumes wf: "wellFormedModules en"
    and g: "\<And>d. distinct (g d) \<and> set (g d) = {n. \<exists>m. (n, m) \<in> set en \<and> d \<in> set (depNames m)}"
    and inv: "kahnInv en (Some m # q) ind out"
    and run: "decrementDependents en (g (Name m)) (ind, q) = (ind', q')"
  shows "kahnInv en q' ind' (out @ [m])"
proof -
  let ?D = "set (map Name out)"
  let ?x = "Name m"
  let ?ds = "g ?x"
  let ?pushed = "filter (\<lambda>n. deg ind n = 1) ?ds"
  from inv obtain qm0 where all0: "Some m # q = map Some qm0
        \<and> (\<forall>y \<in> set (out @ qm0). (Name y, y) \<in> set en)
        \<and> distinct (map Name (out @ qm0))
        \<and> (\<forall>(n, mm) \<in> set en. deg ind n = int (card (set (depNames mm) - ?D)))
        \<and> (\<forall>(n, mm) \<in> set en. set (depNames mm) \<subseteq> ?D
                                \<longleftrightarrow> n \<in> set (map Name (out @ qm0)))
        \<and> inDependencyOrder {} out"
    unfolding kahnInv_def ..
  then have qm0: "Some m # q = map Some qm0"
    and E0: "\<forall>y \<in> set (out @ qm0). (Name y, y) \<in> set en"
    and Dst0: "distinct (map Name (out @ qm0))"
    and Cnt: "\<forall>(n, mm) \<in> set en. deg ind n = int (card (set (depNames mm) - ?D))"
    and Rdy0: "\<forall>(n, mm) \<in> set en. set (depNames mm) \<subseteq> ?D \<longleftrightarrow> n \<in> set (map Name (out @ qm0))"
    and Top: "inDependencyOrder {} out"
    by blast+
  from qm0 obtain qm where qm: "qm0 = m # qm" "q = map Some qm" by (cases qm0) auto
  note E = E0 [unfolded qm] and Dst = Dst0 [unfolded qm] and Rdy = Rdy0 [unfolded qm]
  have xen: "(?x, m) \<in> set en" using E by simp
  have xD: "?x \<notin> ?D" using Dst by auto
  from decrementDependents_distinct [OF _ run] g have
    deg': "\<And>n. deg ind' n = deg ind n - (if n \<in> set ?ds then 1 else 0)"
    and q': "q' = q @ map (map_of en) ?pushed" by auto
  have ds_iff: "\<And>n mm. (n, mm) \<in> set en \<Longrightarrow> n \<in> set ?ds \<longleftrightarrow> ?x \<in> set (depNames mm)"
    using g wf_lookup(4) [OF wf] by blast
  have ds_en: "\<And>n. n \<in> set ?ds \<Longrightarrow> \<exists>mm. (n, mm) \<in> set en" using g by blast
  have cnt: "\<And>n mm. (n, mm) \<in> set en \<Longrightarrow> deg ind n = int (card (set (depNames mm) - ?D))"
    using Cnt by blast
  have rdy: "\<And>n mm. (n, mm) \<in> set en \<Longrightarrow>
      set (depNames mm) \<subseteq> ?D \<longleftrightarrow> n \<in> set (map Name (out @ m # qm))"
    using Rdy by blast
  \<comment> \<open>the modules pushed\<close>
  let ?pm = "map (\<lambda>n. the (map_of en n)) ?pushed"
  have pushed_en: "\<And>n. n \<in> set ?pushed \<Longrightarrow> (n, the (map_of en n)) \<in> set en"
  proof -
    fix n assume "n \<in> set ?pushed"
    then have "n \<in> set ?ds" by simp
    from ds_en [OF this] obtain mm where "(n, mm) \<in> set en" by blast
    then show "(n, the (map_of en n)) \<in> set en" using wf_lookup(1) [OF wf] by (metis option.sel)
  qed
  have pm_some: "map (map_of en) ?pushed = map Some ?pm"
  proof -
    have "\<And>n. n \<in> set ?pushed \<Longrightarrow> map_of en n = Some (the (map_of en n))"
      using pushed_en wf_lookup(1) [OF wf] by blast
    then show ?thesis by (simp add: comp_def cong: map_cong)
  qed
  have pm_names: "map Name ?pm = ?pushed"
  proof -
    have "\<And>n. n \<in> set ?pushed \<Longrightarrow> Name (the (map_of en n)) = n"
      using pushed_en wf_lookup(2) [OF wf] by blast
    then have "map (\<lambda>n. Name (the (map_of en n))) ?pushed = map (\<lambda>n. n) ?pushed"
      by (intro map_cong) auto
    then show ?thesis by (simp add: comp_def)
  qed
  have q'eq: "q' = map Some (qm @ ?pm)" using q' qm pm_some by simp
  \<comment> \<open>a pushed module was not ready before\<close>
  have pushed_new: "\<And>n. n \<in> set ?pushed \<Longrightarrow> n \<notin> set (map Name (out @ m # qm))"
  proof -
    fix n assume n: "n \<in> set ?pushed"
    let ?mm = "the (map_of en n)"
    from pushed_en [OF n] have en: "(n, ?mm) \<in> set en" .
    from n have "deg ind n = 1" by simp
    with cnt [OF en] have c1: "card (set (depNames ?mm) - ?D) = 1" by simp
    have "\<not> set (depNames ?mm) \<subseteq> ?D"
    proof
      assume "set (depNames ?mm) \<subseteq> ?D"
      then have "set (depNames ?mm) - ?D = {}" by blast
      then have "card (set (depNames ?mm) - ?D) = 0" by (metis card.empty)
      with c1 show False by linarith
    qed
    with rdy [OF en] show "n \<notin> set (map Name (out @ m # qm))" by blast
  qed
  have a': "\<forall>y \<in> set ((out @ [m]) @ (qm @ ?pm)). (Name y, y) \<in> set en"
  proof
    fix y assume "y \<in> set ((out @ [m]) @ (qm @ ?pm))"
    then consider "y \<in> set (out @ m # qm)" | "y \<in> set ?pm" by auto
    then show "(Name y, y) \<in> set en"
    proof cases
      case 1
      with E show ?thesis by blast
    next
      case 2
      then obtain n where n: "n \<in> set ?pushed" "y = the (map_of en n)" by auto
      from pushed_en [OF n(1)] wf_lookup(2) [OF wf] n(2) show ?thesis by metis
    qed
  qed
  have b': "distinct (map Name ((out @ [m]) @ (qm @ ?pm)))"
  proof -
    have "distinct ?pushed" using g by simp
    moreover have "set ?pushed \<inter> set (map Name (out @ m # qm)) = {}"
      using pushed_new by blast
    ultimately show ?thesis using Dst pm_names by (auto simp: map_append)
  qed
  have c': "\<forall>(n, mm) \<in> set en. deg ind' n = int (card (set (depNames mm) - set (map Name (out @ [m]))))"
  proof (intro ballI, clarify)
    fix n mm assume en: "(n, mm) \<in> set en"
    have D': "set (map Name (out @ [m])) = insert ?x ?D" by simp
    show "deg ind' n = int (card (set (depNames mm) - set (map Name (out @ [m]))))"
    proof (cases "?x \<in> set (depNames mm)")
      case True
      then have "n \<in> set ?ds" using ds_iff [OF en] by simp
      with deg' cnt [OF en] have d: "deg ind' n = int (card (set (depNames mm) - ?D)) - 1" by simp
      have in': "?x \<in> set (depNames mm) - ?D" using True xD by simp
      have "set (depNames mm) - insert ?x ?D = (set (depNames mm) - ?D) - {?x}" by auto
      then have "card (set (depNames mm) - insert ?x ?D) = card (set (depNames mm) - ?D) - 1"
        using in' by (simp add: card_Diff_singleton)
      moreover have "card (set (depNames mm) - ?D) \<ge> 1"
        using in' by (metis One_nat_def Suc_leI card_gt_0_iff empty_iff finite_Diff finite_set)
      ultimately show ?thesis using d D' by simp
    next
      case False
      then have "n \<notin> set ?ds" using ds_iff [OF en] by simp
      with deg' cnt [OF en] have d: "deg ind' n = int (card (set (depNames mm) - ?D))" by simp
      have "set (depNames mm) - insert ?x ?D = set (depNames mm) - ?D" using False by auto
      with d D' show ?thesis by simp
    qed
  qed
  have d': "\<forall>(n, mm) \<in> set en. set (depNames mm) \<subseteq> set (map Name (out @ [m]))
              \<longleftrightarrow> n \<in> set (map Name ((out @ [m]) @ (qm @ ?pm)))"
  proof (intro ballI, clarify)
    fix n mm assume en: "(n, mm) \<in> set en"
    have D': "set (map Name (out @ [m])) = insert ?x ?D" by simp
    have names: "set (map Name ((out @ [m]) @ (qm @ ?pm)))
                 = set (map Name (out @ m # qm)) \<union> set ?pushed"
      using pm_names by (auto simp: map_append)
    show "set (depNames mm) \<subseteq> set (map Name (out @ [m]))
              \<longleftrightarrow> n \<in> set (map Name ((out @ [m]) @ (qm @ ?pm)))"
    proof
      assume sub: "set (depNames mm) \<subseteq> set (map Name (out @ [m]))"
      show "n \<in> set (map Name ((out @ [m]) @ (qm @ ?pm)))"
      proof (cases "set (depNames mm) \<subseteq> ?D")
        case True
        with rdy [OF en] names show ?thesis by blast
      next
        case False
        with sub D' have xin: "?x \<in> set (depNames mm)" and one: "set (depNames mm) - ?D = {?x}"
          by auto
        from one cnt [OF en] have "deg ind n = 1" by simp
        moreover from xin ds_iff [OF en] have "n \<in> set ?ds" by simp
        ultimately have "n \<in> set ?pushed" by simp
        with names show ?thesis by blast
      qed
    next
      assume "n \<in> set (map Name ((out @ [m]) @ (qm @ ?pm)))"
      with names consider "n \<in> set (map Name (out @ m # qm))" | "n \<in> set ?pushed" by blast
      then show "set (depNames mm) \<subseteq> set (map Name (out @ [m]))"
      proof cases
        case 1
        with rdy [OF en] D' show ?thesis by blast
      next
        case 2
        then have one: "deg ind n = 1" and nds: "n \<in> set ?ds" by simp_all
        from nds ds_iff [OF en] have xin: "?x \<in> set (depNames mm)" by simp
        from one cnt [OF en] have c1: "card (set (depNames mm) - ?D) = 1" by simp
        from xin xD have "?x \<in> set (depNames mm) - ?D" by simp
        with c1 have "set (depNames mm) - ?D = {?x}"
          by (metis card_1_singletonE singletonD)
        with D' show ?thesis by auto
      qed
    qed
  qed
  have e': "inDependencyOrder {} (out @ [m])"
  proof -
    have "?x \<in> set (map Name (out @ m # qm))" by simp
    with rdy [OF xen] have "set (depNames m) \<subseteq> ?D" by blast
    with Top show ?thesis by (simp add: inDependencyOrder_append)
  qed
  show ?thesis unfolding kahnInv_def
    using q'eq a' b' c' d' e' by blast
qed


lemma kahn_correct:
  "wellFormedModules en \<Longrightarrow>
   (\<forall>d. distinct (g d) \<and> set (g d) = {n. \<exists>m. (n, m) \<in> set en \<and> d \<in> set (depNames m)}) \<Longrightarrow>
   kahnInv en q ind out \<Longrightarrow>
   \<exists>out'. kahnLoop g en q ind out = Inr out' \<and> kahnFinal en out'"
proof (induction g en q ind out rule: kahnLoop.induct)
  case (1 graph en inDegree orderedModules)
  then show ?case by (auto simp: kahnInv_def kahnFinal_def)
next
  case (2 graph en queue inDegree orderedModules)
  then show ?case by (auto simp: kahnInv_def)
next
  case (3 graph en m queue inDegree orderedModules)
  obtain ind' q' where run: "decrementDependents en (graph (Name m)) (inDegree, queue) = (ind', q')"
    by (cases "decrementDependents en (graph (Name m)) (inDegree, queue)")
  have gd: "\<And>d. distinct (graph d) \<and> set (graph d) = {n. \<exists>m. (n, m) \<in> set en \<and> d \<in> set (depNames m)}"
    using "3.prems"(2) by blast
  have inv': "kahnInv en q' ind' (orderedModules @ [m])"
    by (rule kahn_step [OF "3.prems"(1) gd "3.prems"(3) run])
  from "3.IH" [OF run [symmetric] "3.prems"(1) "3.prems"(2) inv']
  show ?case using run by simp
qed

lemma rangeOver_total:
  "(\<forall>key \<in> set ks. map_of al key \<noteq> None) \<Longrightarrow>
   rangeOver ks al = map (\<lambda>key. (key, the (map_of al key))) ks"
  by (induction ks) (auto simp: rangeOver_def List.map_filter_def)

lemma deg_initInDegree: "deg (initInDegree en) n = 0"
proof -
  have "\<And>d. deg (fold (\<lambda>(name, m) d. fmupd name 0 d) en d) n
            = (if n \<in> fst ` set en then 0 else deg d n)"
    by (induction en) (auto simp: deg_fmupd)
  then show ?thesis by (simp add: initInDegree_def deg_def)
qed


lemma rangeOver_enumerates:
  assumes d: "distinct (map fst al)" and e: "enumerates ks al"
  shows "map fst (rangeOver ks al) = ks" and "set (rangeOver ks al) = set al"
proof -
  have tot: "\<forall>key \<in> set ks. map_of al key \<noteq> None"
    using e by (auto simp: enumerates_def map_of_eq_None_iff)
  note r = rangeOver_total [OF tot]
  show "map fst (rangeOver ks al) = ks" unfolding r by (simp add: comp_def)
  show "set (rangeOver ks al) = set al"
  proof (intro equalityI subsetI)
    fix p assume "p \<in> set (rangeOver ks al)"
    then obtain key where key: "key \<in> set ks" "p = (key, the (map_of al key))"
      unfolding r by auto
    from key(1) tot obtain v where v: "map_of al key = Some v" by auto
    then have "(key, v) \<in> set al" by (rule map_of_SomeD)
    with key(2) v show "p \<in> set al" by simp
  next
    fix p assume p: "p \<in> set al"
    obtain key v where kv: "p = (key, v)" by (cases p)
    from p kv d have m: "map_of al key = Some v" by simp
    from p kv e have k: "key \<in> set ks" unfolding enumerates_def by (metis fst_conv imageI)
    have "(key, the (map_of al key)) \<in> (\<lambda>key. (key, the (map_of al key))) ` set ks"
      using k by (rule imageI)
    then show "p \<in> set (rangeOver ks al)" unfolding r kv using m by simp
  qed
qed

lemma checkDependencies_ok:
  "list_all (dependencySatisfied sv en) deps \<Longrightarrow>
   \<exists>g' ind'. checkDependencies sv en name deps (g, ind) = Inr (g', ind')
     \<and> (\<forall>d. g' d = g d @ replicate (length (filter (\<lambda>dc. fst dc = d) deps)) name)
     \<and> (\<forall>n. deg ind' n = deg ind n + (if n = name then int (length deps) else 0))"
proof (induction deps arbitrary: g ind)
  case Nil
  then show ?case by simp
next
  case (Cons dc deps)
  obtain depName constraintStr where dc: "dc = (depName, constraintStr)" by (cases dc)
  from Cons.prems dc obtain dep c v where ok: "map_of en depName = Some dep"
    "NewConstraint sv constraintStr = Some c" "NewVersion sv (Version dep) = Some v" "Check sv c v"
    by (auto simp: dependencySatisfied_def split: option.splits)
  let ?g1 = "g(depName := g depName @ [name])"
  let ?i1 = "fmupd name (deg ind name + 1) ind"
  from Cons.prems have rest: "list_all (dependencySatisfied sv en) deps" by simp
  from Cons.IH [OF rest, of ?g1 ?i1] obtain g' ind' where
    r: "checkDependencies sv en name deps (?g1, ?i1) = Inr (g', ind')"
    and rg: "\<forall>d. g' d = ?g1 d @ replicate (length (filter (\<lambda>dc. fst dc = d) deps)) name"
    and ri: "\<forall>n. deg ind' n = deg ?i1 n + (if n = name then int (length deps) else 0)"
    by blast
  have 1: "checkDependencies sv en name (dc # deps) (g, ind) = Inr (g', ind')"
    using dc ok r by simp
  have 2: "\<forall>d. g' d = g d @ replicate (length (filter (\<lambda>dc. fst dc = d) (dc # deps))) name"
    using rg dc by (auto simp: replicate_append_same)
  have 3: "\<forall>n. deg ind' n = deg ind n + (if n = name then int (length (dc # deps)) else 0)"
    using ri by (auto simp: deg_fmupd)
  from 1 2 3 show ?case by blast
qed

lemma buildGraph_ok:
  "(\<forall>(n, m) \<in> set ps. NewVersion sv (Version m) \<noteq> None
        \<and> list_all (dependencySatisfied sv en) (Dependencies m)) \<Longrightarrow>
   \<exists>g' ind'. buildGraph sv en ps (g, ind) = Inr (g', ind')
     \<and> (\<forall>d. g' d = g d @ concat (map (\<lambda>(n, m).
              replicate (length (filter (\<lambda>dc. fst dc = d) (Dependencies m))) n) ps))
     \<and> (\<forall>n. deg ind' n = deg ind n
              + sum_list (map (\<lambda>(n', m). if n' = n then int (length (Dependencies m)) else 0) ps))"
proof (induction ps arbitrary: g ind)
  case Nil
  then show ?case by simp
next
  case (Cons p ps)
  obtain name m where p: "p = (name, m)" by (cases p)
  from Cons.prems p obtain v where v: "NewVersion sv (Version m) = Some v"
    and deps: "list_all (dependencySatisfied sv en) (Dependencies m)" by auto
  from checkDependencies_ok [OF deps, of name g ind] obtain g1 i1 where
    c: "checkDependencies sv en name (Dependencies m) (g, ind) = Inr (g1, i1)"
    and cg: "\<forall>d. g1 d = g d @ replicate (length (filter (\<lambda>dc. fst dc = d) (Dependencies m))) name"
    and ci: "\<forall>n. deg i1 n = deg ind n + (if n = name then int (length (Dependencies m)) else 0)"
    by blast
  from Cons.prems have rest: "\<forall>(n, m) \<in> set ps. NewVersion sv (Version m) \<noteq> None
        \<and> list_all (dependencySatisfied sv en) (Dependencies m)" by simp
  from Cons.IH [OF rest, of g1 i1] obtain g' ind' where
    r: "buildGraph sv en ps (g1, i1) = Inr (g', ind')"
    and rg: "\<forall>d. g' d = g1 d @ concat (map (\<lambda>(n, m).
              replicate (length (filter (\<lambda>dc. fst dc = d) (Dependencies m))) n) ps)"
    and ri: "\<forall>n. deg ind' n = deg i1 n
              + sum_list (map (\<lambda>(n', m). if n' = n then int (length (Dependencies m)) else 0) ps)"
    by blast
  have 1: "buildGraph sv en (p # ps) (g, ind) = Inr (g', ind')" using p v c r by simp
  have 2: "\<forall>d. g' d = g d @ concat (map (\<lambda>(n, m).
              replicate (length (filter (\<lambda>dc. fst dc = d) (Dependencies m))) n) (p # ps))"
    using rg cg p by simp
  have 3: "\<forall>n. deg ind' n = deg ind n
              + sum_list (map (\<lambda>(n', m). if n' = n then int (length (Dependencies m)) else 0) (p # ps))"
    using ri ci p by simp
  from 1 2 3 show ?case by blast
qed


lemma count_key_distinct:
  "distinct (map fst xs) \<Longrightarrow>
   length (filter (\<lambda>dc. fst dc = d) xs) = (if d \<in> fst ` set xs then 1 else 0)"
  by (induction xs) (auto simp: image_iff)

lemma graph_as_filter:
  "(\<forall>(n, m) \<in> set ps. distinct (depNames m)) \<Longrightarrow>
   concat (map (\<lambda>(n, m). replicate (length (filter (\<lambda>dc. fst dc = d) (Dependencies m))) n) ps)
   = map fst (filter (\<lambda>(n, m). d \<in> set (depNames m)) ps)"
proof (induction ps)
  case Nil
  then show ?case by simp
next
  case (Cons p ps)
  obtain n m where p: "p = (n, m)" by (cases p)
  from Cons.prems p have dm: "distinct (map fst (Dependencies m))" by (simp add: depNames_def)
  from Cons.prems have rest: "\<forall>(n, m) \<in> set ps. distinct (depNames m)" by simp
  show ?case using Cons.IH [OF rest] p count_key_distinct [OF dm, of d]
    by (simp add: depNames_def)
qed

lemma indeg_sum:
  "distinct (map fst ps) \<Longrightarrow> (n, m) \<in> set ps \<Longrightarrow>
   sum_list (map (\<lambda>(n', m'). if n' = n then int (length (Dependencies m')) else 0) ps)
   = int (length (Dependencies m))"
proof (induction ps)
  case Nil
  then show ?case by simp
next
  case (Cons p ps)
  obtain n' m' where p: "p = (n', m')" by (cases p)
  have zero: "n \<notin> fst ` set ps \<Longrightarrow>
     sum_list (map (\<lambda>(n', m'). if n' = n then int (length (Dependencies m')) else 0) ps) = 0"
    by (induction ps) auto
  show ?case
  proof (cases "(n, m) = p")
    case True
    with Cons.prems p have "n \<notin> fst ` set ps" by auto
    from zero [OF this] True p show ?thesis by auto
  next
    case False
    with Cons.prems have in_ps: "(n, m) \<in> set ps" and d: "distinct (map fst ps)" by auto
    from in_ps have "n \<in> fst ` set ps" by force
    with Cons.prems p have "n' \<noteq> n" by auto
    with Cons.IH [OF d in_ps] p show ?thesis by simp
  qed
qed

lemma build_facts:
  assumes wf: "wellFormedModules en" and e: "enumerates ks en"
    and vp: "versionsParse sv en" and cs: "constraintsSatisfied sv en"
  shows "\<exists>g ind. buildGraph sv en (rangeOver ks en) (\<lambda>n. [], initInDegree en) = Inr (g, ind)
     \<and> (\<forall>d. distinct (g d) \<and> set (g d) = {n. \<exists>m. (n, m) \<in> set en \<and> d \<in> set (depNames m)})
     \<and> (\<forall>(n, m) \<in> set en. deg ind n = int (length (depNames m)))"
proof -
  let ?ps = "rangeOver ks en"
  from wf have d: "distinct (map fst en)" by (simp add: wellFormedModules_def)
  note ro = rangeOver_enumerates [OF d e]
  have dps: "distinct (map fst ?ps)" using ro(1) e by (simp add: enumerates_def)
  have pre: "\<forall>(n, m) \<in> set ?ps. NewVersion sv (Version m) \<noteq> None
        \<and> list_all (dependencySatisfied sv en) (Dependencies m)"
    using vp cs unfolding ro(2) versionsParse_def constraintsSatisfied_def
    by (auto simp: list_all_iff)
  from buildGraph_ok [OF pre, of "\<lambda>n. []" "initInDegree en"] obtain g ind where
    b: "buildGraph sv en ?ps (\<lambda>n. [], initInDegree en) = Inr (g, ind)"
    and bg: "\<forall>d. g d = [] @ concat (map (\<lambda>(n, m).
              replicate (length (filter (\<lambda>dc. fst dc = d) (Dependencies m))) n) ?ps)"
    and bi: "\<forall>n. deg ind n = deg (initInDegree en) n
              + sum_list (map (\<lambda>(n', m). if n' = n then int (length (Dependencies m)) else 0) ?ps)"
    by blast
  have dd: "\<forall>(n, m) \<in> set ?ps. distinct (depNames m)"
    unfolding ro(2) using wf_lookup(3) [OF wf] by blast
  have gf: "\<And>d. g d = map fst (filter (\<lambda>(n, m). d \<in> set (depNames m)) ?ps)"
    using bg graph_as_filter [OF dd] by simp
  have 1: "\<forall>d. distinct (g d) \<and> set (g d) = {n. \<exists>m. (n, m) \<in> set en \<and> d \<in> set (depNames m)}"
  proof (intro allI conjI)
    fix dn
    show "distinct (g dn)" unfolding gf using dps by (rule distinct_map_filter)
    show "set (g dn) = {n. \<exists>m. (n, m) \<in> set en \<and> dn \<in> set (depNames m)}"
      unfolding gf using ro(2) by force
  qed
  have 2: "\<forall>(n, m) \<in> set en. deg ind n = int (length (depNames m))"
  proof (intro ballI, clarify)
    fix n m assume "(n, m) \<in> set en"
    then have "(n, m) \<in> set ?ps" using ro(2) by simp
    from indeg_sum [OF dps this] bi show "deg ind n = int (length (depNames m))"
      by (simp add: deg_initInDegree depNames_def)
  qed
  from b 1 2 show ?thesis by blast
qed

lemma kahn_init:
  assumes wf: "wellFormedModules en" and e: "enumerates ks en"
    and dg: "\<forall>(n, m) \<in> set en. deg ind n = int (length (depNames m))"
  shows "kahnInv en (seedQueue (rangeOver ks en) ind) ind []"
proof -
  let ?ps = "rangeOver ks en"
  let ?sel = "filter (\<lambda>(n, m). deg ind n = 0) ?ps"
  let ?qm = "map snd ?sel"
  from wf have d: "distinct (map fst en)" by (simp add: wellFormedModules_def)
  note ro = rangeOver_enumerates [OF d e]
  have dps: "distinct (map fst ?ps)" using ro(1) e by (simp add: enumerates_def)
  have q: "seedQueue ?ps ind = map Some ?qm"
    by (simp add: seedQueue_def comp_def case_prod_unfold)
  have sel_en: "\<And>p. p \<in> set ?sel \<Longrightarrow> p \<in> set en \<and> Name (snd p) = fst p"
    using ro(2) wf_lookup(2) [OF wf] by auto
  have names: "map Name ?qm = map fst ?sel"
    using sel_en by (simp add: comp_def cong: map_cong)
  have a: "\<forall>x \<in> set ([] @ ?qm). (Name x, x) \<in> set en"
  proof
    fix x assume "x \<in> set ([] @ ?qm)"
    then obtain p where p: "p \<in> set ?sel" "x = snd p" by auto
    from sel_en [OF p(1)] p(2) show "(Name x, x) \<in> set en" by (cases p) auto
  qed
  have b: "distinct (map Name ([] @ ?qm))"
  proof -
    have "distinct (map fst ?sel)" using dps by (rule distinct_map_filter)
    then have "distinct (map Name ?qm)" unfolding names .
    then show ?thesis by simp
  qed
  have c: "\<forall>(n, m) \<in> set en. deg ind n = int (card (set (depNames m) - set (map Name [])))"
  proof (intro ballI, clarify)
    fix n m assume en: "(n, m) \<in> set en"
    from wf_lookup(3) [OF wf en] have "card (set (depNames m)) = length (depNames m)"
      by (rule distinct_card)
    with dg en show "deg ind n = int (card (set (depNames m) - set (map Name [])))" by auto
  qed
  have dd: "\<forall>(n, m) \<in> set en. set (depNames m) \<subseteq> set (map Name [])
              \<longleftrightarrow> n \<in> set (map Name ([] @ ?qm))"
  proof (intro ballI, clarify)
    fix n m assume en: "(n, m) \<in> set en"
    have "n \<in> set (map Name ([] @ ?qm)) \<longleftrightarrow> n \<in> fst ` set ?sel" using names by (metis append_Nil list.set_map)
    also have "\<dots> \<longleftrightarrow> deg ind n = 0"
    proof
      assume "n \<in> fst ` set ?sel"
      then show "deg ind n = 0" by auto
    next
      assume z: "deg ind n = 0"
      from en ro(2) have "(n, m) \<in> set ?ps" by simp
      with z have "(n, m) \<in> set ?sel" by simp
      then show "n \<in> fst ` set ?sel" by force
    qed
    also have "\<dots> \<longleftrightarrow> depNames m = []" using dg en by auto
    finally show "set (depNames m) \<subseteq> set (map Name []) \<longleftrightarrow> n \<in> set (map Name ([] @ ?qm))"
      by auto
  qed
  show ?thesis unfolding kahnInv_def q
    using a b c dd by (intro exI [of _ ?qm]) simp
qed


lemma topo_pos:
  "inDependencyOrder S out \<Longrightarrow> distinct (map Name out) \<Longrightarrow> m \<in> set out \<Longrightarrow>
   d \<in> set (depNames m) \<Longrightarrow> d \<notin> S \<Longrightarrow> posOf d out < posOf (Name m) out"
proof (induction out arbitrary: S)
  case Nil
  then show ?case by simp
next
  case (Cons a rest)
  show ?case
  proof (cases "m = a")
    case True
    with Cons.prems show ?thesis by auto
  next
    case False
    with Cons.prems have mr: "m \<in> set rest" by simp
    with Cons.prems(2) have ne: "Name a \<noteq> Name m" by auto
    show ?thesis
    proof (cases "d = Name a")
      case True
      with ne show ?thesis by simp
    next
      case dn: False
      from Cons.prems have o: "inDependencyOrder (insert (Name a) S) rest"
        and dr: "distinct (map Name rest)" by simp_all
      from dn Cons.prems(5) have "d \<notin> insert (Name a) S" by simp
      from Cons.IH [OF o dr mr Cons.prems(4) this] ne dn show ?thesis by simp
    qed
  qed
qed

lemma final_complete_acyclic:
  assumes wf: "wellFormedModules en" and fin: "kahnFinal en out"
    and cover: "set (map Name out) = fst ` set en"
  shows "acyclic (dependencyEdges en)"
proof -
  from fin have E: "\<forall>x \<in> set out. (Name x, x) \<in> set en" and dst: "distinct (map Name out)"
    and top: "inDependencyOrder {} out" by (simp_all add: kahnFinal_def)
  have "acyclic ((dependencyEdges en)\<inverse>)"
  proof (rule acyclicI_order [where f = "\<lambda>n. posOf n out"])
    fix a b assume "(a, b) \<in> (dependencyEdges en)\<inverse>"
    then obtain m where m: "(a, m) \<in> set en" "b \<in> set (depNames m)"
      by (auto simp: dependencyEdges_def)
    from m(1) cover have "a \<in> set (map Name out)" by force
    then obtain x where x: "x \<in> set out" "Name x = a" by auto
    with E have "(a, x) \<in> set en" by blast
    from wf_lookup(4) [OF wf m(1) this] have "x = m" .
    with x have "m \<in> set out" "Name m = a" by simp_all
    from topo_pos [OF top dst this(1) m(2)] this(2) show "posOf b out < posOf a out" by simp
  qed
  then show ?thesis by simp
qed

lemma final_acyclic_complete:
  assumes wf: "wellFormedModules en" and fin: "kahnFinal en out"
    and exist: "\<forall>(n, m) \<in> set en. set (depNames m) \<subseteq> fst ` set en"
    and ac: "acyclic (dependencyEdges en)"
  shows "set (map Name out) = fst ` set en"
proof -
  let ?R = "dependencyEdges en"
  let ?N = "fst ` set en"
  let ?D = "set (map Name out)"
  from fin have E: "\<forall>x \<in> set out. (Name x, x) \<in> set en"
    and rdy: "\<forall>(n, m) \<in> set en. set (depNames m) \<subseteq> ?D \<longleftrightarrow> n \<in> ?D"
    by (simp_all add: kahnFinal_def)
  have sub: "?D \<subseteq> ?N" using E by force
  have "?R \<subseteq> ?N \<times> ?N" using exist by (force simp: dependencyEdges_def)
  then have "finite ?R" by (rule finite_subset) simp
  then have w: "wf ?R" using ac by (rule finite_acyclic_wf)
  have "?N \<subseteq> ?D"
  proof (rule ccontr)
    assume "\<not> ?N \<subseteq> ?D"
    then obtain z0 where "z0 \<in> ?N - ?D" by blast
    from wfE_min [OF w this] obtain z where z: "z \<in> ?N - ?D"
      and min: "\<And>y. (y, z) \<in> ?R \<Longrightarrow> y \<notin> ?N - ?D" by blast
    from z obtain m where m: "(z, m) \<in> set en" by auto
    from z rdy m have "\<not> set (depNames m) \<subseteq> ?D" by blast
    then obtain d where d: "d \<in> set (depNames m)" "d \<notin> ?D" by blast
    from d(1) m exist have "d \<in> ?N" by blast
    moreover from d(1) m have "(d, z) \<in> ?R" by (auto simp: dependencyEdges_def)
    ultimately show False using min d(2) by blast
  qed
  with sub show ?thesis by blast
qed

lemma final_length:
  assumes wf: "wellFormedModules en" and fin: "kahnFinal en out"
  shows "length out = length en \<longleftrightarrow> set (map Name out) = fst ` set en"
proof -
  from fin have E: "\<forall>x \<in> set out. (Name x, x) \<in> set en" and dst: "distinct (map Name out)"
    by (simp_all add: kahnFinal_def)
  from wf have d: "distinct (map fst en)" by (simp add: wellFormedModules_def)
  have sub: "set (map Name out) \<subseteq> fst ` set en" using E by force
  have co: "card (set (map Name out)) = length out" using distinct_card [OF dst] by simp
  have cn: "card (fst ` set en) = length en" using distinct_card [OF d] by simp
  show ?thesis
  proof
    assume "length out = length en"
    with co cn have "card (set (map Name out)) = card (fst ` set en)" by simp
    with sub show "set (map Name out) = fst ` set en"
      by (intro card_subset_eq) auto
  next
    assume "set (map Name out) = fst ` set en"
    with co cn show "length out = length en" by simp
  qed
qed

lemma final_set:
  assumes wf: "wellFormedModules en" and fin: "kahnFinal en out"
    and cover: "set (map Name out) = fst ` set en"
  shows "set out = snd ` set en"
proof (intro equalityI subsetI)
  fix x assume "x \<in> set out"
  with fin have "(Name x, x) \<in> set en" by (simp add: kahnFinal_def)
  then show "x \<in> snd ` set en" by force
next
  fix m assume "m \<in> snd ` set en"
  then obtain n where nm: "(n, m) \<in> set en" by auto
  with cover have "n \<in> set (map Name out)" by force
  then obtain x where x: "x \<in> set out" "Name x = n" by auto
  with fin have "(n, x) \<in> set en" by (auto simp: kahnFinal_def)
  from wf_lookup(4) [OF wf nm this] x show "m \<in> set out" by simp
qed

text \<open>
  C1. Let the enabled modules be well formed (unique keys, each module under its own
  name, unique dependency keys), let every version parse, and let every declared
  dependency be an enabled module whose version satisfies the (parsing) constraint.
  Then, for every order in which the runtime ranges over the maps,
  \<open>getModuleStartupOrder\<close> either returns a sequence that contains each enabled module
  exactly once and in which every module comes after all its dependencies, and then the
  dependency graph is acyclic; or it returns the circular-dependency error, and then the
  graph has a cycle.
\<close>

theorem getModuleStartupOrder_topological:
  assumes wf: "wellFormedModules (enabledModules k)"
    and eg: "enumerates (graphOrder ch) (enabledModules k)"
    and eq: "enumerates (queueOrder ch) (enabledModules k)"
    and vp: "versionsParse sv (enabledModules k)"
    and cs: "constraintsSatisfied sv (enabledModules k)"
  shows "case getModuleStartupOrder sv ch k of
           Inr orderedModules \<Rightarrow>
             acyclic (dependencyEdges (enabledModules k))
             \<and> distinct (map Name orderedModules)
             \<and> length orderedModules = length (enabledModules k)
             \<and> set orderedModules = snd ` set (enabledModules k)
             \<and> inDependencyOrder {} orderedModules
         | Inl e \<Rightarrow> e = CircularDependency \<and> \<not> acyclic (dependencyEdges (enabledModules k))"
proof -
  let ?en = "enabledModules k"
  from build_facts [OF wf eg vp cs] obtain g ind where
    b: "buildGraph sv ?en (rangeOver (graphOrder ch) ?en) (\<lambda>n. [], initInDegree ?en) = Inr (g, ind)"
    and g: "\<forall>d. distinct (g d) \<and> set (g d) = {n. \<exists>m. (n, m) \<in> set ?en \<and> d \<in> set (depNames m)}"
    and dg: "\<forall>(n, m) \<in> set ?en. deg ind n = int (length (depNames m))" by blast
  from kahn_correct [OF wf g kahn_init [OF wf eq dg]] obtain out where
    kl: "kahnLoop g ?en (seedQueue (rangeOver (queueOrder ch) ?en) ind) ind [] = Inr out"
    and fin: "kahnFinal ?en out" by blast
  have res: "getModuleStartupOrder sv ch k
             = (if length out \<noteq> length ?en then Inl CircularDependency else Inr out)"
    using b kl by (simp add: getModuleStartupOrder_def Let_def)
  have exist: "\<forall>(n, m) \<in> set ?en. set (depNames m) \<subseteq> fst ` set ?en"
  proof (intro ballI, clarify)
    fix n m d assume nm: "(n, m) \<in> set ?en" and d: "d \<in> set (depNames m)"
    from d obtain c where "(d, c) \<in> set (Dependencies m)" by (auto simp: depNames_def)
    with cs nm have "dependencySatisfied sv ?en (d, c)"
      by (auto simp: constraintsSatisfied_def list_all_iff)
    then have "map_of ?en d \<noteq> None" by (auto simp: dependencySatisfied_def split: option.splits)
    then show "d \<in> fst ` set ?en" by (simp add: map_of_eq_None_iff)
  qed
  show ?thesis
  proof (cases "length out = length ?en")
    case True
    then have cover: "set (map Name out) = fst ` set ?en" using final_length [OF wf fin] by simp
    from final_complete_acyclic [OF wf fin cover] final_set [OF wf fin cover] fin True res
    show ?thesis by (simp add: kahnFinal_def)
  next
    case False
    then have "set (map Name out) \<noteq> fst ` set ?en" using final_length [OF wf fin] by simp
    with final_acyclic_complete [OF wf fin exist] have "\<not> acyclic (dependencyEdges ?en)" by blast
    with False res show ?thesis by simp
  qed
qed

lemma example_eval_simps:
  "enabledModules (kernelWith ms gs) = filter (\<lambda>(n, m). map_of (map (\<lambda>(n, m). (n, True)) ms) n = Some True) ms"
  by (simp add: enabledModules_def kernelWith_def New_kernel_def)

theorem getModuleStartupOrder_topological_witness:
  "getModuleStartupOrder exampleSemver exampleChoices chainKernel
     = Inr [recModule ''A'' ''1.0.0'' [],
            recModule ''B'' ''1.0.0'' [(''A'', ''^1.0.0'')],
            recModule ''C'' ''1.0.0'' [(''B'', ''^1.0.0''), (''A'', ''^1.0.0'')]]
   \<and> acyclic (dependencyEdges (enabledModules chainKernel))
   \<and> getModuleStartupOrder exampleSemver cycleChoices cycleKernel = Inl CircularDependency
   \<and> \<not> acyclic (dependencyEdges (enabledModules cycleKernel))"
proof -
  have en: "enabledModules chainKernel =
       [(''A'', recModule ''A'' ''1.0.0'' []),
        (''B'', recModule ''B'' ''1.0.0'' [(''A'', ''^1.0.0'')]),
        (''C'', recModule ''C'' ''1.0.0'' [(''B'', ''^1.0.0''), (''A'', ''^1.0.0'')])]"
    by (simp add: chainKernel_def example_eval_simps)
  have h1: "wellFormedModules (enabledModules chainKernel)"
    unfolding en by (simp add: wellFormedModules_def recModule_def depNames_def)
  have h2: "enumerates (graphOrder exampleChoices) (enabledModules chainKernel)"
    unfolding en by (auto simp: enumerates_def exampleChoices_def)
  have h3: "enumerates (queueOrder exampleChoices) (enabledModules chainKernel)"
    unfolding en by (auto simp: enumerates_def exampleChoices_def)
  have h4: "versionsParse exampleSemver (enabledModules chainKernel)"
    unfolding en by (simp add: versionsParse_def recModule_def exampleSemver_def)
  have h5: "constraintsSatisfied exampleSemver (enabledModules chainKernel)"
    unfolding en
    by (simp add: constraintsSatisfied_def dependencySatisfied_def recModule_def exampleSemver_def)
  have r: "getModuleStartupOrder exampleSemver exampleChoices chainKernel
     = Inr [recModule ''A'' ''1.0.0'' [],
            recModule ''B'' ''1.0.0'' [(''A'', ''^1.0.0'')],
            recModule ''C'' ''1.0.0'' [(''B'', ''^1.0.0''), (''A'', ''^1.0.0'')]]"
    unfolding getModuleStartupOrder_def en
    by (simp add: rangeOver_def List.map_filter_def exampleChoices_def recModule_def
        exampleSemver_def initInDegree_def seedQueue_def deg_def Let_def)
  have cen: "enabledModules cycleKernel =
       [(''A'', recModule ''A'' ''1.0.0'' [(''B'', ''^1.0.0'')]),
        (''B'', recModule ''B'' ''1.0.0'' [(''A'', ''^1.0.0'')])]"
    by (simp add: cycleKernel_def example_eval_simps)
  have c1: "wellFormedModules (enabledModules cycleKernel)"
    unfolding cen by (simp add: wellFormedModules_def recModule_def depNames_def)
  have c2: "enumerates (graphOrder cycleChoices) (enabledModules cycleKernel)"
    unfolding cen by (auto simp: enumerates_def cycleChoices_def)
  have c3: "enumerates (queueOrder cycleChoices) (enabledModules cycleKernel)"
    unfolding cen by (auto simp: enumerates_def cycleChoices_def)
  have c4: "versionsParse exampleSemver (enabledModules cycleKernel)"
    unfolding cen by (simp add: versionsParse_def recModule_def exampleSemver_def)
  have c5: "constraintsSatisfied exampleSemver (enabledModules cycleKernel)"
    unfolding cen
    by (simp add: constraintsSatisfied_def dependencySatisfied_def recModule_def exampleSemver_def)
  have cr: "getModuleStartupOrder exampleSemver cycleChoices cycleKernel = Inl CircularDependency"
    unfolding getModuleStartupOrder_def cen
    by (simp add: rangeOver_def List.map_filter_def cycleChoices_def recModule_def
        exampleSemver_def initInDegree_def seedQueue_def deg_def Let_def)
  from getModuleStartupOrder_topological [OF h1 h2 h3 h4 h5] r
  have a: "acyclic (dependencyEdges (enabledModules chainKernel))" by simp
  from getModuleStartupOrder_topological [OF c1 c2 c3 c4 c5] cr
  have b: "\<not> acyclic (dependencyEdges (enabledModules cycleKernel))" by simp
  from r a cr b show ?thesis by blast
qed

section \<open>Modules are enabled from \<open>AddModule\<close> on\<close>

text \<open>
  The lifecycle calls, the start and stop phases and the gateway operations never write
  the module map or the enabled-state map; the module operations write only the entries
  of the module they are called for.
\<close>

lemma sameModules_refl [simp]: "sameModules k k"
  by (simp add: sameModules_def)


lemma sameModules_running [simp]:
  "sameModules k (k'\<lparr>k_running := b\<rparr>) = sameModules k k'"
  "sameModules (k\<lparr>k_running := b\<rparr>) k' = sameModules k k'"
  "sameModules k (k'\<lparr>k_eventBus := bus\<rparr>) = sameModules k k'"
  "sameModules k (k'\<lparr>k_registry := reg\<rparr>) = sameModules k k'"
  "sameModules k (k'\<lparr>k_gateways := gs\<rparr>) = sameModules k k'"
  by (simp_all add: sameModules_def)


















lemmas op_unfold = safelyExecute_def invoke_def callIgnoringError_def Let_def
  update_conv' delete_conv'






















end
